theory Spec2Isabelle
  imports Main "HOL-Library.Word" "HOL-Library.Char_ord" "HOL-Library.List_Lexorder"
begin

unbundle bit_operations_syntax

section \<open>The Quine-McCluskey minimizer\<close>

text \<open>
  The model follows \<^verbatim>\<open>Quine_McCluskey_Algorithm.cpp\<close>. The terms, the group keys and the
  bit positions, C++ \<^verbatim>\<open>int\<close> values, are HOL integers: with at most 8 variables they stay
  below 256. A \<^verbatim>\<open>std::string\<close> is a \<^typ>\<open>string\<close>, compared lexicographically by
  character code as \<^verbatim>\<open>operator<\<close> does; a \<^verbatim>\<open>std::vector\<close> is a list; the
  \<^verbatim>\<open>std::map<int, std::vector<Implicant>>\<close> of one-count groups is an association list
  kept sorted by key, which is the order the map is iterated in; the \<^verbatim>\<open>std::set<int>\<close>
  of uncovered minterms is a sorted list without duplicates.

  Sizes are where the model is wider than the program. A list has any length, and the
  counters \<^verbatim>\<open>totalSize\<close> and \<^verbatim>\<open>markIndex\<close>, \<^verbatim>\<open>int\<close> in the source, are natural numbers
  here, so a function of the model returns also where the program would have run out of
  memory before. The model follows the program on the runs whose vectors the machine can
  hold. The merge phase leaves that range on valid input: the property
  stated for C4 below gives the number of implicants it asks for.
\<close>

subsection \<open>Term model\<close>

text \<open>
\<^verbatim>\<open>intToBinary\<close>: the character for \<^verbatim>\<open>(n >> i) & 1\<close>, for \<open>i\<close> from \<open>numVars - 1\<close> down to \<open>0\<close>.
\<close>

definition intToBinary :: "int \<Rightarrow> int \<Rightarrow> string" where
  "intToBinary n numVars =
     map (\<lambda>i. if (drop_bit i n AND 1) \<noteq> 0 then CHR ''1'' else CHR ''0'')
         (rev [0..<nat numVars])"

text \<open>
The struct \<^verbatim>\<open>Implicant\<close>; its field \<^verbatim>\<open>minterms\<close> is \<open>iminterms\<close> here, the name \<open>minterms\<close> being the field of the minimizer object.
\<close>

record Implicant =
  iminterms :: "int list"
  binary :: string
  isPrime :: bool
  isEssential :: bool

text \<open>
The constructor \<^verbatim>\<open>Implicant(int term, int numVars)\<close>.
\<close>

definition Implicant_term :: "int \<Rightarrow> int \<Rightarrow> Implicant" where
  "Implicant_term term numVars =
     \<lparr>iminterms = [term], binary = intToBinary term numVars,
      isPrime = True, isEssential = False\<rparr>"

text \<open>
  The merged pattern of \<^verbatim>\<open>Implicant(const Implicant& a, const Implicant& b)\<close>: position
  by position over \<open>a\<close>, a dash where the two differ. The constructor is only called after
  \<open>canMerge\<close> has accepted the pair, so both patterns have the same length.
\<close>

fun mergeBinary :: "string \<Rightarrow> string \<Rightarrow> string" where
  "mergeBinary (x # xs) (y # ys) = (if x \<noteq> y then CHR ''-'' else x) # mergeBinary xs ys"
| "mergeBinary _ _ = []"

definition Implicant_merge :: "Implicant \<Rightarrow> Implicant \<Rightarrow> Implicant" where
  "Implicant_merge a b =
     \<lparr>iminterms = sort (iminterms a @ iminterms b),
      binary = mergeBinary (binary a) (binary b),
      isPrime = True, isEssential = False\<rparr>"

text \<open>
  The loop of \<^verbatim>\<open>canMerge\<close> with its counter \<open>diffCount\<close> and the early return once a
  second difference is seen.
\<close>

fun canMergeLoop :: "string \<Rightarrow> string \<Rightarrow> nat \<Rightarrow> bool" where
  "canMergeLoop (x # xs) (y # ys) diffCount =
     (if x \<noteq> y then (if diffCount + 1 > 1 then False else canMergeLoop xs ys (diffCount + 1))
      else canMergeLoop xs ys diffCount)"
| "canMergeLoop _ _ diffCount = (diffCount = 1)"

definition canMerge :: "Implicant \<Rightarrow> Implicant \<Rightarrow> bool" where
  "canMerge a b =
     (if length (binary a) \<noteq> length (binary b) then False
      else canMergeLoop (binary a) (binary b) 0)"

definition countOnes :: "Implicant \<Rightarrow> int" where
  "countOnes imp = int (length (filter (\<lambda>c. c = CHR ''1'') (binary imp)))"

text \<open>
  \<^verbatim>\<open>covers\<close> compares the pattern with the binary form of the term at every index of the
  pattern. Every pattern the program builds has length \<open>numVars\<close>, the length of the term's
  binary form (lemma \<open>cover_wf\<close> below), so each index read is in range.
\<close>

definition covers :: "Implicant \<Rightarrow> int \<Rightarrow> int \<Rightarrow> bool" where
  "covers imp term numVars =
     (let termBinary = intToBinary term numVars
      in \<forall>i \<in> set [0..<length (binary imp)].
           \<not> (binary imp ! i \<noteq> CHR ''-'' \<and> binary imp ! i \<noteq> termBinary ! i))"

subsection \<open>The minimizer object\<close>

record QuineMcCluskey =
  numVars :: int
  minterms :: "int list"
  dontcares :: "int list"
  varNames :: string

text \<open>
\<^verbatim>\<open>initializeVarNames\<close>: the letters \<^verbatim>\<open>'A' + i\<close> for \<open>i\<close> below \<open>numVars\<close>.
\<close>

definition initializeVarNames :: "QuineMcCluskey \<Rightarrow> QuineMcCluskey" where
  "initializeVarNames qm =
     qm\<lparr>varNames := map (\<lambda>i. char_of (of_char (CHR ''A'') + i)) [0..<nat (numVars qm)]\<rparr>"

text \<open>
The constructor \<^verbatim>\<open>QuineMcCluskey(vars, m, dc)\<close>.
\<close>

definition QuineMcCluskey_new :: "int \<Rightarrow> int list \<Rightarrow> int list \<Rightarrow> QuineMcCluskey" where
  "QuineMcCluskey_new vars m dc =
     initializeVarNames \<lparr>numVars = vars, minterms = m, dontcares = dc, varNames = []\<rparr>"

text \<open>
\<^verbatim>\<open>binaryToTerm\<close>: the product term of one pattern.
\<close>

definition binaryToTerm :: "QuineMcCluskey \<Rightarrow> string \<Rightarrow> string" where
  "binaryToTerm qm bin =
     fold (\<lambda>i term.
             if bin ! i = CHR ''0'' then term @ [varNames qm ! i] @ [CHR 0x27]
             else if bin ! i = CHR ''1'' then term @ [varNames qm ! i]
             else term)
          [0..<length bin] []"

subsection \<open>Step 1: prime implicants\<close>

type_synonym groups = "(int \<times> Implicant list) list"

text \<open>
\<^verbatim>\<open>groups[key].push_back(imp)\<close> on the ordered map.
\<close>

fun push_group :: "int \<Rightarrow> Implicant \<Rightarrow> groups \<Rightarrow> groups" where
  "push_group key imp [] = [(key, [imp])]"
| "push_group key imp ((k, v) # rest) =
     (if key = k then (k, v @ [imp]) # rest
      else if key < k then (key, [imp]) # (k, v) # rest
      else (k, v) # push_group key imp rest)"

text \<open>
The initial grouping of the single-term implicants by their number of ones.
\<close>

definition initialGroups :: "int list \<Rightarrow> int \<Rightarrow> groups" where
  "initialGroups terms nv =
     fold (\<lambda>term gs. push_group (countOnes (Implicant_term term nv)) (Implicant_term term nv) gs)
          terms []"

text \<open>
  The variables one round of the \<^verbatim>\<open>while (changed)\<close> loop writes while it merges:
  \<^verbatim>\<open>newGroups\<close>, the \<^verbatim>\<open>marked\<close> vector and \<^verbatim>\<open>changed\<close>.
\<close>

record round_state =
  newGroups :: groups
  marked :: "bool list"
  changed :: bool

text \<open>
The body of the inner iteration over \<open>j\<close> and \<open>k\<close>, for one pair \<open>(j, k)\<close>.
\<close>

definition mergePair ::
  "Implicant list \<Rightarrow> Implicant list \<Rightarrow> nat \<Rightarrow> nat \<Rightarrow> nat \<Rightarrow> round_state \<Rightarrow> round_state" where
  "mergePair group1 group2 markIndex j k st =
     (if canMerge (group1 ! j) (group2 ! k) then
        \<lparr>newGroups = push_group (countOnes (Implicant_merge (group1 ! j) (group2 ! k)))
                       (Implicant_merge (group1 ! j) (group2 ! k)) (newGroups st),
         marked = (marked st)[markIndex + j := True, markIndex + length group1 + k := True],
         changed = True\<rparr>
      else st)"

definition mergeGroups ::
  "Implicant list \<Rightarrow> Implicant list \<Rightarrow> nat \<Rightarrow> round_state \<Rightarrow> round_state" where
  "mergeGroups group1 group2 markIndex st =
     fold (\<lambda>j. fold (\<lambda>k. mergePair group1 group2 markIndex j k) [0..<length group2])
          [0..<length group1] st"

text \<open>
  The loop over \<open>i\<close> from \<open>0\<close> to \<^verbatim>\<open>keys.size() - 2\<close>: \<^verbatim>\<open>keys\<close> is the sorted key list of
  the map, so \<^verbatim>\<open>groups[keys[i]]\<close> and \<^verbatim>\<open>groups[keys[i+1]]\<close> are the \<open>i\<close>-th entry and the
  one after it, and \<open>markIndex\<close> is the number of implicants in the entries before. The
  loop is only ever entered with a non-empty map (lemma \<open>rounds_nonempty\<close> below), where
  the unsigned \<^verbatim>\<open>keys.size() - 1\<close> does not wrap. Every accepted pair appends its merged
  implicant to \<^verbatim>\<open>newGroups\<close>, whether or not the pattern is already there. \<open>totalSize\<close>
  and \<open>markIndex\<close> are natural numbers without a bound, not the 32-bit \<^verbatim>\<open>int\<close> of the
  source.
\<close>

fun mergeAdjacent :: "groups \<Rightarrow> nat \<Rightarrow> round_state \<Rightarrow> round_state" where
  "mergeAdjacent ((k1, group1) # (k2, group2) # rest) markIndex st =
     mergeAdjacent ((k2, group2) # rest) (markIndex + length group1)
       (if k2 - k1 = 1 then mergeGroups group1 group2 markIndex st else st)"
| "mergeAdjacent _ markIndex st = st"

definition totalSize :: "groups \<Rightarrow> nat" where
  "totalSize gs = fold (\<lambda>pair n. n + length (snd pair)) gs 0"

definition mergeRound :: "groups \<Rightarrow> round_state" where
  "mergeRound gs =
     mergeAdjacent gs 0
       \<lparr>newGroups = [], marked = replicate (totalSize gs) False, changed = False\<rparr>"

text \<open>
Collecting the unmarked implicants of the round as prime.
\<close>

fun collectUnmarked :: "groups \<Rightarrow> bool list \<Rightarrow> nat \<Rightarrow> Implicant list \<Rightarrow> Implicant list" where
  "collectUnmarked [] mk markIndex primes = primes"
| "collectUnmarked ((key, g) # rest) mk markIndex primes =
     collectUnmarked rest mk (markIndex + length g)
       (fold (\<lambda>i ps. if \<not> mk ! (markIndex + i) then ps @ [(g ! i)\<lparr>isPrime := True\<rparr>] else ps)
             [0..<length g] primes)"

subsection \<open>Facts about one round, needed for the termination of the loop\<close>

text \<open>
The implicants of all groups, in map order: the order the \<^verbatim>\<open>marked\<close> vector indexes.
\<close>

definition flat :: "groups \<Rightarrow> Implicant list" where
  "flat gs = concat (map snd gs)"

lemma flat_simps [simp]: "flat [] = []" "flat ((k, v) # gs) = v @ flat gs"
  by (simp_all add: flat_def)

lemma flat_append [simp]: "flat (xs @ ys) = flat xs @ flat ys"
  by (simp add: flat_def)

lemma flat_push_group: "set (flat (push_group k imp gs)) = insert imp (set (flat gs))"
  by (induction gs) (auto split: if_splits)

lemma push_group_nonempty: "push_group k imp gs \<noteq> []"
  by (cases gs) (auto split: if_splits)

lemma fold_invariant:
  assumes "P s" and "\<And>x s. x \<in> set xs \<Longrightarrow> P s \<Longrightarrow> P (f x s)"
  shows "P (fold f xs s)"
  using assms by (induction xs arbitrary: s) auto

lemma totalSize_flat: "totalSize gs = length (flat gs)"
proof -
  have "fold (\<lambda>pair n. n + length (snd pair)) gs n = n + length (flat gs)" for n
    by (induction gs arbitrary: n) auto
  then show ?thesis by (simp add: totalSize_def)
qed

text \<open>
The number of positions of a pattern that are not a dash, and the number of positions where two patterns differ.
\<close>

definition nondash :: "string \<Rightarrow> nat" where
  "nondash s = length (filter (\<lambda>c. c \<noteq> CHR ''-'') s)"

lemma canMergeLoop_diff:
  "length xs = length ys \<Longrightarrow> d \<le> 1 \<Longrightarrow>
   canMergeLoop xs ys d = (d + length (filter (\<lambda>(x, y). x \<noteq> y) (zip xs ys)) = 1)"
  by (induction xs ys d rule: canMergeLoop.induct) auto

definition diffCount :: "string \<Rightarrow> string \<Rightarrow> nat" where
  "diffCount xs ys = length (filter (\<lambda>(x, y). x \<noteq> y) (zip xs ys))"

lemma canMerge_iff:
  "canMerge a b = (length (binary a) = length (binary b) \<and> diffCount (binary a) (binary b) = 1)"
  by (auto simp: canMerge_def diffCount_def canMergeLoop_diff)

lemma length_mergeBinary: "length xs = length ys \<Longrightarrow> length (mergeBinary xs ys) = length xs"
  by (induction xs ys rule: mergeBinary.induct) auto

lemma nondash_mergeBinary_le:
  "length xs = length ys \<Longrightarrow> nondash (mergeBinary xs ys) \<le> nondash xs"
  by (induction xs ys rule: mergeBinary.induct) (auto simp: nondash_def)

lemma nondash_mergeBinary_le2:
  "length xs = length ys \<Longrightarrow> nondash (mergeBinary xs ys) \<le> nondash ys"
  by (induction xs ys rule: mergeBinary.induct) (auto simp: nondash_def)

lemma nondash_mergeBinary_less:
  "length xs = length ys \<Longrightarrow> diffCount xs ys \<ge> 1 \<Longrightarrow>
   nondash (mergeBinary xs ys) < max (nondash xs) (nondash ys)"
proof (induction xs ys rule: mergeBinary.induct)
  case (1 x xs y ys)
  show ?case
  proof (cases "x = y")
    case True
    with 1 show ?thesis by (auto simp: nondash_def diffCount_def)
  next
    case False
    have le1: "nondash (mergeBinary xs ys) \<le> nondash xs" using 1 by (simp add: nondash_mergeBinary_le)
    have le2: "nondash (mergeBinary xs ys) \<le> nondash ys" using 1 by (simp add: nondash_mergeBinary_le2)
    have "x \<noteq> CHR ''-'' \<or> y \<noteq> CHR ''-''" using False by auto
    then show ?thesis using False le1 le2 by (auto simp: nondash_def)
  qed
qed (auto simp: diffCount_def)

text \<open>
  What one round maintains while it merges. \<open>src\<close> is the round's implicants in map
  order: every new implicant is the merge of an accepted pair of the round, every marked
  implicant is a parent of a new implicant, and \<open>changed\<close> is set exactly when a new
  implicant exists.
\<close>

definition merged_from :: "Implicant list \<Rightarrow> Implicant \<Rightarrow> bool" where
  "merged_from src m = (\<exists>a b. a \<in> set src \<and> b \<in> set src \<and> canMerge a b \<and> m = Implicant_merge a b)"

definition absorbed :: "Implicant \<Rightarrow> Implicant \<Rightarrow> bool" where
  "absorbed x m = (\<exists>y. (canMerge x y \<and> m = Implicant_merge x y) \<or> (canMerge y x \<and> m = Implicant_merge y x))"

definition round_inv :: "Implicant list \<Rightarrow> round_state \<Rightarrow> bool" where
  "round_inv src st =
     (length (marked st) = length src \<and>
      (\<forall>m \<in> set (flat (newGroups st)). merged_from src m) \<and>
      (\<forall>idx < length src. marked st ! idx \<longrightarrow> (\<exists>m \<in> set (flat (newGroups st)). absorbed (src ! idx) m)) \<and>
      (changed st = (flat (newGroups st) \<noteq> [])))"

lemma round_inv_mergePair:
  assumes "round_inv src st" "j < length group1" "k < length group2"
    "markIndex + length group1 + length group2 \<le> length src"
    "\<forall>j < length group1. src ! (markIndex + j) = group1 ! j"
    "\<forall>k < length group2. src ! (markIndex + length group1 + k) = group2 ! k"
  shows "round_inv src (mergePair group1 group2 markIndex j k st)"
proof (cases "canMerge (group1 ! j) (group2 ! k)")
  case False
  then show ?thesis using assms(1) by (simp add: mergePair_def)
next
  case True
  let ?a = "group1 ! j" and ?b = "group2 ! k"
  let ?m = "Implicant_merge ?a ?b"
  let ?st = "mergePair group1 group2 markIndex j k st"
  have ia: "markIndex + j < length src" and ib: "markIndex + length group1 + k < length src"
    using assms by auto
  have sa: "src ! (markIndex + j) = ?a" and sb: "src ! (markIndex + length group1 + k) = ?b"
    using assms by auto
  have ina: "?a \<in> set src" using ia sa by (metis nth_mem)
  have inb: "?b \<in> set src" using ib sb by (metis nth_mem)
  have ng: "set (flat (newGroups ?st)) = insert ?m (set (flat (newGroups st)))"
    using True by (simp add: mergePair_def flat_push_group)
  have mk: "marked ?st = (marked st)[markIndex + j := True, markIndex + length group1 + k := True]"
    using True by (simp add: mergePair_def)
  have ch1: "changed ?st" using True by (simp add: mergePair_def)
  have "?m \<in> set (flat (newGroups ?st))" using ng by simp
  then have ch2: "flat (newGroups ?st) \<noteq> []" by auto
  note ch = ch1 ch2
  have c1: "length (marked ?st) = length src" using assms(1) mk by (simp add: round_inv_def)
  have c2: "\<forall>m \<in> set (flat (newGroups ?st)). merged_from src m"
    using assms(1) ng ina inb True by (auto simp: round_inv_def merged_from_def)
  have c3: "\<exists>m \<in> set (flat (newGroups ?st)). absorbed (src ! idx) m"
    if "idx < length src" "marked ?st ! idx" for idx
  proof -
    consider "idx = markIndex + j" | "idx = markIndex + length group1 + k"
      | "idx \<noteq> markIndex + j" "idx \<noteq> markIndex + length group1 + k" by blast
    then show ?thesis
    proof cases
      case 1
      then show ?thesis using ng sa True by (auto simp: absorbed_def)
    next
      case 2
      then show ?thesis using ng sb True by (auto simp: absorbed_def)
    next
      case 3
      then have "marked st ! idx" using that mk by simp
      then show ?thesis using assms(1) that(1) ng by (auto simp: round_inv_def)
    qed
  qed
  show ?thesis unfolding round_inv_def using c1 c2 c3 ch by blast
qed

lemma round_inv_mergeGroups:
  assumes "round_inv src st"
    "markIndex + length group1 + length group2 \<le> length src"
    "\<forall>j < length group1. src ! (markIndex + j) = group1 ! j"
    "\<forall>k < length group2. src ! (markIndex + length group1 + k) = group2 ! k"
  shows "round_inv src (mergeGroups group1 group2 markIndex st)"
  unfolding mergeGroups_def
  by (rule fold_invariant, rule assms(1), rule fold_invariant, assumption)
     (use assms in \<open>auto intro: round_inv_mergePair\<close>)

lemma round_inv_mergeAdjacent:
  assumes "round_inv src st" "src = pre @ flat gs" "markIndex = length pre"
  shows "round_inv src (mergeAdjacent gs markIndex st)"
  using assms
proof (induction gs markIndex st arbitrary: pre rule: mergeAdjacent.induct)
  case (1 k1 group1 k2 group2 rest markIndex st)
  let ?st = "if k2 - k1 = 1 then mergeGroups group1 group2 markIndex st else st"
  have src: "src = pre @ group1 @ group2 @ flat rest" using 1 by simp
  have "round_inv src ?st"
  proof (cases "k2 - k1 = 1")
    case True
    have "round_inv src (mergeGroups group1 group2 markIndex st)"
      using 1(2) src 1(4) by (intro round_inv_mergeGroups) (auto simp: nth_append)
    then show ?thesis using True by simp
  next
    case False
    then show ?thesis using 1 by simp
  qed
  moreover have "src = (pre @ group1) @ flat ((k2, group2) # rest)" using src by simp
  ultimately have "round_inv src (mergeAdjacent ((k2, group2) # rest) (markIndex + length group1) ?st)"
    using 1(1)[of "pre @ group1"] 1(4) by simp
  then show ?case by simp
qed simp_all

lemma round_inv_mergeRound: "round_inv (flat gs) (mergeRound gs)"
  unfolding mergeRound_def
  by (rule round_inv_mergeAdjacent[where pre = "[]"]) (simp_all add: round_inv_def totalSize_flat)

text \<open>
  The measure of the loop: one more than the largest number of non-dash positions of an
  implicant of the round. A merge puts a dash where one parent had none, so a round that
  merges lowers it.
\<close>

definition gbound :: "groups \<Rightarrow> nat" where
  "gbound gs = Max (insert 0 ((\<lambda>imp. Suc (nondash (binary imp))) ` set (flat gs)))"

lemma gbound_ge: "imp \<in> set (flat gs) \<Longrightarrow> Suc (nondash (binary imp)) \<le> gbound gs"
  by (simp add: gbound_def)

lemma gbound_less:
  assumes "\<forall>imp \<in> set (flat gs). Suc (nondash (binary imp)) < n" "0 < n"
  shows "gbound gs < n"
  using assms by (auto simp: gbound_def)

lemma merged_from_nondash:
  assumes "merged_from src m"
  shows "\<exists>a \<in> set src. nondash (binary m) < nondash (binary a)"
proof -
  from assms obtain a b where ab: "a \<in> set src" "b \<in> set src" "canMerge a b" "m = Implicant_merge a b"
    by (auto simp: merged_from_def)
  then have "nondash (binary m) < max (nondash (binary a)) (nondash (binary b))"
    by (simp add: canMerge_iff Implicant_merge_def nondash_mergeBinary_less)
  then show ?thesis using ab by (auto simp: max_def split: if_splits)
qed

lemma gbound_mergeRound:
  assumes "changed (mergeRound gs)"
  shows "gbound (newGroups (mergeRound gs)) < gbound gs"
proof (rule gbound_less)
  have inv: "round_inv (flat gs) (mergeRound gs)" by (rule round_inv_mergeRound)
  show "\<forall>imp \<in> set (flat (newGroups (mergeRound gs))). Suc (nondash (binary imp)) < gbound gs"
  proof
    fix imp assume "imp \<in> set (flat (newGroups (mergeRound gs)))"
    then have "merged_from (flat gs) imp" using inv by (simp add: round_inv_def)
    then obtain a where "a \<in> set (flat gs)" "nondash (binary imp) < nondash (binary a)"
      using merged_from_nondash by blast
    then show "Suc (nondash (binary imp)) < gbound gs" using gbound_ge[of a gs] by simp
  qed
  have "flat (newGroups (mergeRound gs)) \<noteq> []" using inv assms by (simp add: round_inv_def)
  then obtain m where "m \<in> set (flat (newGroups (mergeRound gs)))"
    by (meson last_in_set)
  then have "merged_from (flat gs) m" using inv by (simp add: round_inv_def)
  then obtain a where "a \<in> set (flat gs)" by (auto simp: merged_from_def)
  then show "0 < gbound gs" using gbound_ge[of a gs] by simp
qed

text \<open>
  The \<^verbatim>\<open>while (changed)\<close> loop of \<^verbatim>\<open>findPrimeImplicants\<close>. \<^verbatim>\<open>changed\<close> starts as true,
  so the body runs at least once.
\<close>

function primeLoop :: "groups \<Rightarrow> Implicant list \<Rightarrow> Implicant list" where
  "primeLoop gs primeImplicants =
     (if changed (mergeRound gs)
      then primeLoop (newGroups (mergeRound gs))
             (collectUnmarked gs (marked (mergeRound gs)) 0 primeImplicants)
      else collectUnmarked gs (marked (mergeRound gs)) 0 primeImplicants)"
  by pat_completeness auto
termination
  by (relation "measure (\<lambda>(gs, primeImplicants). gbound gs)") (auto simp: gbound_mergeRound)

declare primeLoop.simps [simp del]

text \<open>
The number of times the body of that loop runs: the same recursion, counting.
\<close>

function loopRounds :: "groups \<Rightarrow> nat" where
  "loopRounds gs =
     (if changed (mergeRound gs) then Suc (loopRounds (newGroups (mergeRound gs))) else 1)"
  by pat_completeness auto
termination
  by (relation "measure gbound") (auto simp: gbound_mergeRound)

declare loopRounds.simps [simp del]

text \<open>
  \<^verbatim>\<open>std::unique\<close> with a predicate keeps the first element of every run of equal
  elements. \<^verbatim>\<open>std::sort\<close> is not stable; \<open>sort_key\<close> is one of the orders it may produce,
  and for the lists sorted here every such order gives the same result (lemmas
  \<open>removeDuplicates_any_order\<close> and \<open>sort_key_unique\<close> below).
\<close>

fun unique_by :: "('a \<Rightarrow> 'a \<Rightarrow> bool) \<Rightarrow> 'a list \<Rightarrow> 'a list" where
  "unique_by eq (a # b # rest) =
     (if eq a b then unique_by eq (a # rest) else a # unique_by eq (b # rest))"
| "unique_by eq xs = xs"

definition removeDuplicates :: "Implicant list \<Rightarrow> Implicant list" where
  "removeDuplicates implicants =
     unique_by (\<lambda>a b. binary a = binary b) (sort_key binary implicants)"

definition findPrimeImplicants :: "QuineMcCluskey \<Rightarrow> int list \<Rightarrow> Implicant list" where
  "findPrimeImplicants qm terms =
     (if terms = [] then []
      else removeDuplicates (primeLoop (initialGroups terms (numVars qm)) []))"

subsection \<open>Step 2: essential primes\<close>

definition findEssentialPrimes :: "QuineMcCluskey \<Rightarrow> Implicant list \<Rightarrow> Implicant list" where
  "findEssentialPrimes qm primes =
     fold (\<lambda>minterm essentialPrimes.
             let coveringPrimes = filter (\<lambda>imp. covers imp minterm (numVars qm)) primes
             in if length coveringPrimes = 1 then
                  (if \<exists>ep \<in> set essentialPrimes. binary ep = binary (coveringPrimes ! 0)
                   then essentialPrimes
                   else essentialPrimes @ [(coveringPrimes ! 0)\<lparr>isEssential := True\<rparr>])
                else essentialPrimes)
          (minterms qm) []"

subsection \<open>Step 3: the greedy cover\<close>

text \<open>
The search for the prime covering most uncovered minterms: \<open>(maxCover, bestIdx)\<close> after the loop over \<open>i\<close>.
\<close>

definition findBest :: "QuineMcCluskey \<Rightarrow> int list \<Rightarrow> Implicant list \<Rightarrow> int \<times> int" where
  "findBest qm uncoveredMinterms remainingPrimes =
     fold (\<lambda>i (maxCover, bestIdx).
             let coverCount =
                   int (length (filter (\<lambda>minterm. covers (remainingPrimes ! i) minterm (numVars qm))
                                  uncoveredMinterms))
             in if coverCount > maxCover then (coverCount, int i) else (maxCover, bestIdx))
          [0..<length remainingPrimes] (- 1, - 1)"

text \<open>
\<^verbatim>\<open>remainingPrimes.erase(remainingPrimes.begin() + bestIdx)\<close>.
\<close>

definition erase :: "'a list \<Rightarrow> nat \<Rightarrow> 'a list" where
  "erase xs i = take i xs @ drop (Suc i) xs"

lemma findBest_range:
  assumes "remainingPrimes \<noteq> []"
  shows "0 \<le> snd (findBest qm uncoveredMinterms remainingPrimes) \<and>
         snd (findBest qm uncoveredMinterms remainingPrimes) < int (length remainingPrimes)"
proof -
  define f where "f = (\<lambda>i (maxCover, bestIdx).
             let coverCount =
                   int (length (filter (\<lambda>minterm. covers (remainingPrimes ! i) minterm (numVars qm))
                                  uncoveredMinterms))
             in if coverCount > maxCover then (coverCount, int i) else (maxCover, bestIdx))"
  have "(n = 0 \<and> fold f [0..<n] (- 1, - 1) = (- 1, - 1)) \<or>
        (0 \<le> fst (fold f [0..<n] (- 1, - 1)) \<and> 0 \<le> snd (fold f [0..<n] (- 1, - 1))
          \<and> snd (fold f [0..<n] (- 1, - 1)) < int n)" for n
  proof (induction n)
    case 0
    then show ?case by simp
  next
    case (Suc n)
    obtain mc bi where s: "fold f [0..<n] (- 1, - 1) = (mc, bi)" by (cases "fold f [0..<n] (- 1, - 1)")
    with Suc show ?case by (auto simp: f_def Let_def)
  qed
  from this[of "length remainingPrimes"] assms
  show ?thesis unfolding findBest_def f_def by auto
qed

text \<open>
  The \<^verbatim>\<open>while\<close> loop of \<^verbatim>\<open>findMinimalCover\<close>. Were \<open>bestIdx\<close> negative the body would change
  nothing and the loop would spin; \<open>findBest_range\<close> shows that this branch is never taken,
  which is what the termination proof uses. The uncovered minterms are visited in
  increasing order, so the new set is the old one filtered.
\<close>

function greedyLoop ::
  "QuineMcCluskey \<Rightarrow> int list \<Rightarrow> Implicant list \<Rightarrow> Implicant list \<Rightarrow> Implicant list" where
  "greedyLoop qm uncoveredMinterms remainingPrimes cover =
     (if uncoveredMinterms \<noteq> [] \<and> remainingPrimes \<noteq> [] then
        (if snd (findBest qm uncoveredMinterms remainingPrimes) \<ge> 0 then
           greedyLoop qm
             (filter (\<lambda>minterm.
                        \<not> covers (remainingPrimes ! nat (snd (findBest qm uncoveredMinterms remainingPrimes)))
                                 minterm (numVars qm))
                     uncoveredMinterms)
             (erase remainingPrimes (nat (snd (findBest qm uncoveredMinterms remainingPrimes))))
             (cover @ [remainingPrimes ! nat (snd (findBest qm uncoveredMinterms remainingPrimes))])
         else greedyLoop qm uncoveredMinterms remainingPrimes cover)
      else cover)"
  by pat_completeness auto
termination
proof (relation "measure (\<lambda>(qm, uncoveredMinterms, remainingPrimes, cover). length remainingPrimes)")
  show "wf (measure (\<lambda>(qm, uncoveredMinterms, remainingPrimes, cover). length remainingPrimes))"
    by simp
next
  fix qm :: QuineMcCluskey and uncoveredMinterms remainingPrimes and cover :: "Implicant list"
  assume "uncoveredMinterms \<noteq> [] \<and> remainingPrimes \<noteq> []"
    "0 \<le> snd (findBest qm uncoveredMinterms remainingPrimes)"
  then show "((qm, filter (\<lambda>minterm.
                        \<not> covers (remainingPrimes ! nat (snd (findBest qm uncoveredMinterms remainingPrimes)))
                                 minterm (numVars qm))
                     uncoveredMinterms,
           erase remainingPrimes (nat (snd (findBest qm uncoveredMinterms remainingPrimes))),
           cover @ [remainingPrimes ! nat (snd (findBest qm uncoveredMinterms remainingPrimes))]),
          (qm, uncoveredMinterms, remainingPrimes, cover))
         \<in> measure (\<lambda>(qm, uncoveredMinterms, remainingPrimes, cover). length remainingPrimes)"
    using findBest_range[of remainingPrimes qm uncoveredMinterms]
    by (auto simp: erase_def)
next
  fix qm :: QuineMcCluskey and uncoveredMinterms remainingPrimes and cover :: "Implicant list"
  assume "uncoveredMinterms \<noteq> [] \<and> remainingPrimes \<noteq> []"
    "\<not> 0 \<le> snd (findBest qm uncoveredMinterms remainingPrimes)"
  then show "((qm, uncoveredMinterms, remainingPrimes, cover), (qm, uncoveredMinterms, remainingPrimes, cover))
         \<in> measure (\<lambda>(qm, uncoveredMinterms, remainingPrimes, cover). length remainingPrimes)"
    using findBest_range[of remainingPrimes qm uncoveredMinterms] by auto
qed

declare greedyLoop.simps [simp del]

definition findMinimalCover ::
  "QuineMcCluskey \<Rightarrow> Implicant list \<Rightarrow> Implicant list \<Rightarrow> Implicant list" where
  "findMinimalCover qm essentialPrimes allPrimes =
     (let uncoveredMinterms =
            fold (\<lambda>minterm uncovered.
                    if \<exists>imp \<in> set essentialPrimes. covers imp minterm (numVars qm)
                    then uncovered else insort_insert minterm uncovered)
                 (minterms qm) []
      in if uncoveredMinterms = [] then essentialPrimes
         else sort_key binary
                (greedyLoop qm uncoveredMinterms
                   (filter (\<lambda>imp. \<not> (\<exists>ep \<in> set essentialPrimes. binary ep = binary imp)) allPrimes)
                   essentialPrimes))"

subsection \<open>Step 4: formatting\<close>

definition formatSOP :: "QuineMcCluskey \<Rightarrow> Implicant list \<Rightarrow> string" where
  "formatSOP qm cover =
     (if cover = [] then ''0''
      else if \<exists>imp \<in> set cover. CHR ''0'' \<notin> set (binary imp) \<and> CHR ''1'' \<notin> set (binary imp)
      then ''1''
      else
        (let result =
               fold (\<lambda>i result.
                       if binaryToTerm qm (binary (cover ! i)) \<noteq> [] then
                         (result @ binaryToTerm qm (binary (cover ! i)))
                           @ (if i < length cover - 1 then '' + '' else [])
                       else result)
                    [0..<length cover] []
         in if result = [] \<and> cover \<noteq> [] then ''1'' else result))"

subsection \<open>The entry point\<close>

text \<open>
  The two \<^verbatim>\<open>std::runtime_error\<close>s of \<^verbatim>\<open>minimize()\<close>, told apart by their messages: "Number
  of variables exceeds limit of 8" is \<open>InvalidVariableCount\<close>, and the two out-of-range
  messages carry the offending term. \<^verbatim>\<open>1 << numVars\<close> with a negative \<open>numVars\<close> is
  undefined in C++; the model marks that case with \<open>ShiftUndefined\<close> and says nothing more
  about it. \<open>ShiftUndefined\<close> is no behaviour of the program, and no property below is about
  an instance with a negative \<open>numVars\<close>.
\<close>

datatype error =
    InvalidVariableCount
  | MintermOutOfRange int
  | DontCareOutOfRange int
  | ShiftUndefined

definition allTerms :: "QuineMcCluskey \<Rightarrow> int list" where
  "allTerms qm = unique_by (=) (sort (minterms qm @ dontcares qm))"

definition minimalCover :: "QuineMcCluskey \<Rightarrow> Implicant list" where
  "minimalCover qm =
     findMinimalCover qm
       (findEssentialPrimes qm (findPrimeImplicants qm (allTerms qm)))
       (findPrimeImplicants qm (allTerms qm))"

text \<open>
  \<^verbatim>\<open>minimize()\<close> is a non-const member function, so the model returns the object next to
  the result.
\<close>

definition minimize :: "QuineMcCluskey \<Rightarrow> (error + string) \<times> QuineMcCluskey" where
  "minimize qm =
     (if numVars qm > 8 then (Inl InvalidVariableCount, qm)
      else if numVars qm < 0 then (Inl ShiftUndefined, qm)
      else
        (let maxTerm = 2 ^ nat (numVars qm) - 1
         in case find (\<lambda>term. term < 0 \<or> term > maxTerm) (minterms qm) of
              Some term \<Rightarrow> (Inl (MintermOutOfRange term), qm)
            | None \<Rightarrow>
               (case find (\<lambda>term. term < 0 \<or> term > maxTerm) (dontcares qm) of
                  Some term \<Rightarrow> (Inl (DontCareOutOfRange term), qm)
                | None \<Rightarrow> (Inr (formatSOP qm (minimalCover qm)), qm))))"

section \<open>Notions used to state the properties\<close>

text \<open>
  A valid problem instance: between 1 and 8 variables, every minterm and don't-care term
  in \<open>[0, 2 ^ numVars - 1]\<close>, and the variable names as the constructor sets them.
\<close>

definition valid :: "QuineMcCluskey \<Rightarrow> bool" where
  "valid qm =
     (1 \<le> numVars qm \<and> numVars qm \<le> 8 \<and>
      (\<forall>term \<in> set (minterms qm @ dontcares qm). 0 \<le> term \<and> term \<le> 2 ^ nat (numVars qm) - 1) \<and>
      initializeVarNames qm = qm)"

text \<open>
The spec's \<open>TermOutOfRange\<close>: either of the two out-of-range errors.
\<close>

definition isTermOutOfRange :: "error \<Rightarrow> bool" where
  "isTermOutOfRange e =
     (case e of MintermOutOfRange t \<Rightarrow> True | DontCareOutOfRange t \<Rightarrow> True | _ \<Rightarrow> False)"

text \<open>
The number of dashes of a pattern, and the test of \<^verbatim>\<open>formatSOP\<close> for a pattern without literals.
\<close>

definition dashes :: "string \<Rightarrow> nat" where
  "dashes s = length (filter (\<lambda>c. c = CHR ''-'') s)"

definition all_dash :: "string \<Rightarrow> bool" where
  "all_dash bin = (CHR ''0'' \<notin> set bin \<and> CHR ''1'' \<notin> set bin)"

text \<open>
  The groups at the start of round \<open>k\<close> of the merge loop, rounds counted from 1: each
  round hands its \<^verbatim>\<open>newGroups\<close> to the next. \<open>primeRounds\<close> is the number of rounds
  \<^verbatim>\<open>findPrimeImplicants\<close> performs, none when there are no terms.
\<close>

definition nextGroups :: "groups \<Rightarrow> groups" where
  "nextGroups gs = newGroups (mergeRound gs)"

definition roundGroups :: "int list \<Rightarrow> int \<Rightarrow> nat \<Rightarrow> groups" where
  "roundGroups terms nv k = (nextGroups ^^ (k - 1)) (initialGroups terms nv)"

definition primeRounds :: "QuineMcCluskey \<Rightarrow> int list \<Rightarrow> nat" where
  "primeRounds qm terms =
     (if terms = [] then 0 else loopRounds (initialGroups terms (numVars qm)))"

text \<open>
  The rendering of a cover in the words of the specification: position \<open>i\<close> is the letter
  \<^verbatim>\<open>'A' + i\<close>, plain for the symbol 1, followed by an apostrophe for 0, absent for a dash;
  the products are joined by \<^verbatim>\<open>" + "\<close>.
\<close>

definition spec_literal :: "nat \<Rightarrow> char \<Rightarrow> string" where
  "spec_literal i symb =
     (if symb = CHR ''1'' then [char_of (of_char (CHR ''A'') + i)]
      else if symb = CHR ''0'' then [char_of (of_char (CHR ''A'') + i), CHR 0x27]
      else [])"

definition spec_product :: "string \<Rightarrow> string" where
  "spec_product bin = concat (map (\<lambda>i. spec_literal i (bin ! i)) [0..<length bin])"

fun joinSOP :: "string list \<Rightarrow> string" where
  "joinSOP [] = []"
| "joinSOP [x] = x"
| "joinSOP (x # y # ys) = x @ '' + '' @ joinSOP (y # ys)"

text \<open>
  The reading of an SOP text as a Boolean function of a term, after the same conventions.
  The repository has no evaluator of its own output; this one is the yardstick for the
  specification's re-evaluation property. A letter is true on a term when the term's
  binary form has a 1 at the letter's position; an apostrophe negates the letter before it;
  a product is the conjunction of its literals; the text is the disjunction of the products
  between the separators, and the texts \<^verbatim>\<open>0\<close> and \<^verbatim>\<open>1\<close> are the constants.
\<close>

definition varValue :: "int \<Rightarrow> int \<Rightarrow> char \<Rightarrow> bool" where
  "varValue nv term v =
     (of_char (CHR ''A'') \<le> (of_char v :: nat) \<and>
      of_char v - of_char (CHR ''A'') < nat nv \<and>
      intToBinary term nv ! (of_char v - of_char (CHR ''A'')) = CHR ''1'')"

fun evalProduct :: "int \<Rightarrow> int \<Rightarrow> string \<Rightarrow> bool" where
  "evalProduct nv term [] = True"
| "evalProduct nv term [v] = varValue nv term v"
| "evalProduct nv term (v # c # rest) =
     (if c = CHR 0x27 then \<not> varValue nv term v \<and> evalProduct nv term rest
      else varValue nv term v \<and> evalProduct nv term (c # rest))"

fun splitSum :: "string \<Rightarrow> string list" where
  "splitSum [] = [[]]"
| "splitSum (c # cs) =
     (if take 3 (c # cs) = '' + '' then [] # splitSum (drop 2 cs)
      else (case splitSum cs of [] \<Rightarrow> [[c]] | p # ps \<Rightarrow> (c # p) # ps))"

definition evalSOP :: "int \<Rightarrow> string \<Rightarrow> int \<Rightarrow> bool" where
  "evalSOP nv sop term =
     (if sop = ''0'' then False
      else if sop = ''1'' then True
      else (\<exists>p \<in> set (splitSum sop). evalProduct nv term p))"

subsection \<open>Counting the implicants of a round\<close>

text \<open>
  \<open>cnt xs p\<close> is the number of implicants of \<open>xs\<close> that carry the pattern \<open>p\<close>, and
  \<open>ones p\<close> the number of ones of a pattern. \<open>grouped\<close> is the shape of the map of a round:
  keys ascending, every implicant under the key that is its number of ones.
\<close>

definition cnt :: "Implicant list \<Rightarrow> string \<Rightarrow> nat" where
  "cnt xs p = length (filter (\<lambda>x. binary x = p) xs)"

definition ones :: "string \<Rightarrow> int" where
  "ones p = int (length (filter (\<lambda>c. c = CHR ''1'') p))"

definition grouped :: "groups \<Rightarrow> bool" where
  "grouped gs = (sorted_wrt (<) (map fst gs) \<and> (\<forall>(k, v) \<in> set gs. \<forall>x \<in> set v. countOnes x = k))"

text \<open>
  \<open>accepted g1 g2 p j k\<close>: the pair \<open>(j, k)\<close> of the two groups passes \<^verbatim>\<open>canMerge\<close> and its
  merged implicant has pattern \<open>p\<close>.
\<close>

definition accepted :: "Implicant list \<Rightarrow> Implicant list \<Rightarrow> string \<Rightarrow> nat \<Rightarrow> nat \<Rightarrow> bool" where
  "accepted g1 g2 p j k =
     (canMerge (g1 ! j) (g2 ! k) \<and> binary (Implicant_merge (g1 ! j) (g2 ! k)) = p)"

text \<open>
  \<open>copies d\<close> is the number of times the merge phase produces one pattern with \<open>d\<close> dashes
  when all terms are present: the pattern comes from \<open>d\<close> positions, and for each of them
  from every pair of copies of its two halves. \<open>full T nv\<close> says that \<open>T\<close> holds every term
  of \<open>nv\<close> variables.
\<close>

fun copies :: "nat \<Rightarrow> nat" where
  "copies 0 = 1"
| "copies (Suc d) = Suc d * (copies d)\<^sup>2"

definition full :: "int list \<Rightarrow> int \<Rightarrow> bool" where
  "full T nv = (\<forall>t. 0 \<le> t \<and> t < 2 ^ nat nv \<longrightarrow> t \<in> set T)"

subsection \<open>The outcomes that a conforming sort allows\<close>

text \<open>
  \<^verbatim>\<open>std::sort\<close> is not stable: what the C++ standard fixes about its result is that it is a
  rearrangement of the input, in ascending order of the comparison. \<open>sort_outcome key xs ys\<close>
  says that \<open>ys\<close> is such a result for \<open>xs\<close>, compared by \<open>key\<close>. The functions
  \<open>removeDuplicates\<close> and \<open>findMinimalCover\<close> above take the stable sort as the one result;
  the relations below follow the same source lines and allow every result.
\<close>

definition sort_outcome :: "('a \<Rightarrow> 'k::linorder) \<Rightarrow> 'a list \<Rightarrow> 'a list \<Rightarrow> bool" where
  "sort_outcome key xs ys = ((\<forall>x. count_list ys x = count_list xs x) \<and> sorted (map key ys))"

text \<open>
  The sort and \<^verbatim>\<open>std::unique\<close> on the terms in \<^verbatim>\<open>minimize()\<close>, and those on the implicants in
  \<^verbatim>\<open>removeDuplicates\<close>.
\<close>

definition allTerms_any :: "QuineMcCluskey \<Rightarrow> int list \<Rightarrow> bool" where
  "allTerms_any qm result =
     (\<exists>sorted_terms. sort_outcome (\<lambda>term. term) (minterms qm @ dontcares qm) sorted_terms \<and>
        result = unique_by (=) sorted_terms)"

definition removeDuplicates_any :: "Implicant list \<Rightarrow> Implicant list \<Rightarrow> bool" where
  "removeDuplicates_any implicants result =
     (\<exists>sorted_implicants. sort_outcome binary implicants sorted_implicants \<and>
        result = unique_by (\<lambda>a b. binary a = binary b) sorted_implicants)"

text \<open>
  \<^verbatim>\<open>findPrimeImplicants\<close>. Inside the merge phase the only sort is the one of the merging
  constructor, on a vector of integers, which has a single sorted rearrangement (lemma
  \<open>sort_outcome_ints\<close>); \<open>primeLoop\<close> is therefore kept as the function it is.
\<close>

definition findPrimeImplicants_any :: "QuineMcCluskey \<Rightarrow> int list \<Rightarrow> Implicant list \<Rightarrow> bool" where
  "findPrimeImplicants_any qm terms result =
     (if terms = [] then result = []
      else removeDuplicates_any (primeLoop (initialGroups terms (numVars qm)) []) result)"

text \<open>
\<^verbatim>\<open>findMinimalCover\<close>: the early return without a sort, and the sort of the final cover.
\<close>

definition findMinimalCover_any ::
  "QuineMcCluskey \<Rightarrow> Implicant list \<Rightarrow> Implicant list \<Rightarrow> Implicant list \<Rightarrow> bool" where
  "findMinimalCover_any qm essentialPrimes allPrimes result =
     (let uncoveredMinterms =
            fold (\<lambda>minterm uncovered.
                    if \<exists>imp \<in> set essentialPrimes. covers imp minterm (numVars qm)
                    then uncovered else insort_insert minterm uncovered)
                 (minterms qm) []
      in if uncoveredMinterms = [] then result = essentialPrimes
         else sort_outcome binary
                (greedyLoop qm uncoveredMinterms
                   (filter (\<lambda>imp. \<not> (\<exists>ep \<in> set essentialPrimes. binary ep = binary imp)) allPrimes)
                   essentialPrimes)
                result)"

text \<open>
  \<^verbatim>\<open>minimize()\<close>: the outcomes of a call on \<open>qm\<close>, each the result next to the object as the
  call leaves it. With a negative \<open>numVars\<close> the shift is undefined and the relation
  excludes nothing.
\<close>

definition minimize_any :: "QuineMcCluskey \<Rightarrow> (error + string) \<times> QuineMcCluskey \<Rightarrow> bool" where
  "minimize_any qm outcome =
     (if numVars qm > 8 then outcome = (Inl InvalidVariableCount, qm)
      else if numVars qm < 0 then True
      else
        (let maxTerm = 2 ^ nat (numVars qm) - 1
         in case find (\<lambda>term. term < 0 \<or> term > maxTerm) (minterms qm) of
              Some term \<Rightarrow> outcome = (Inl (MintermOutOfRange term), qm)
            | None \<Rightarrow>
               (case find (\<lambda>term. term < 0 \<or> term > maxTerm) (dontcares qm) of
                  Some term \<Rightarrow> outcome = (Inl (DontCareOutOfRange term), qm)
                | None \<Rightarrow>
                   (\<exists>terms primes cover.
                      allTerms_any qm terms \<and>
                      findPrimeImplicants_any qm terms primes \<and>
                      findMinimalCover_any qm (findEssentialPrimes qm primes) primes cover \<and>
                      outcome = (Inr (formatSOP qm cover), qm)))))"

section \<open>Properties of the stages\<close>

subsection \<open>Binary forms and patterns\<close>

lemma shift_and_one: "((drop_bit i (n::int) AND 1) \<noteq> 0) = bit n i"
  by (simp add: and_one_eq bit_iff_odd_drop_bit odd_iff_mod_2_eq_one)

lemma length_intToBinary [simp]: "length (intToBinary t nv) = nat nv"
  by (simp add: intToBinary_def)

lemma intToBinary_nth:
  "i < nat nv \<Longrightarrow>
   intToBinary t nv ! i = (if bit t (nat nv - 1 - i) then CHR ''1'' else CHR ''0'')"
  by (simp add: intToBinary_def shift_and_one rev_nth)

lemma set_intToBinary: "set (intToBinary t nv) \<subseteq> {CHR ''0'', CHR ''1''}"
  by (auto simp: intToBinary_def)

lemma intToBinary_inj:
  assumes "0 \<le> t" "t < 2 ^ nat nv" "0 \<le> u" "u < 2 ^ nat nv"
    "intToBinary t nv = intToBinary u nv"
  shows "t = u"
proof -
  have bits: "bit t j = bit u j" if "j < nat nv" for j
  proof -
    have i: "nat nv - 1 - j < nat nv" using that by simp
    have "intToBinary t nv ! (nat nv - 1 - j) = intToBinary u nv ! (nat nv - 1 - j)"
      using assms(5) by simp
    then show ?thesis using that i by (simp add: intToBinary_nth split: if_splits)
  qed
  have "take_bit (nat nv) t = take_bit (nat nv) u"
    by (rule bit_eqI) (auto simp: bit_take_bit_iff bits)
  moreover have "take_bit (nat nv) t = t" using assms by (simp add: take_bit_int_eq_self)
  moreover have "take_bit (nat nv) u = u" using assms by (simp add: take_bit_int_eq_self)
  ultimately show ?thesis by simp
qed

text \<open>
A pattern matches a binary form when every position is a dash or agrees.
\<close>

definition matches :: "string \<Rightarrow> string \<Rightarrow> bool" where
  "matches p tb = list_all2 (\<lambda>c b. c = CHR ''-'' \<or> c = b) p tb"

lemma matches_simps [simp]:
  "matches [] [] = True"
  "matches (c # p) (b # tb) = ((c = CHR ''-'' \<or> c = b) \<and> matches p tb)"
  "matches [] (b # tb) = False"
  "matches (c # p) [] = False"
  by (simp_all add: matches_def)

lemma covers_matches:
  "length (binary imp) = nat nv \<Longrightarrow> covers imp t nv = matches (binary imp) (intToBinary t nv)"
  by (auto simp: covers_def matches_def list_all2_conv_all_nth)

lemma dashes_simps [simp]:
  "dashes [] = 0" "dashes (c # s) = (if c = CHR ''-'' then Suc (dashes s) else dashes s)"
  by (simp_all add: dashes_def)

lemma diffCount_simps [simp]:
  "diffCount [] ys = 0" "diffCount xs [] = 0"
  "diffCount (x # xs) (y # ys) = (if x \<noteq> y then Suc (diffCount xs ys) else diffCount xs ys)"
  by (simp_all add: diffCount_def)

lemma diffCount_0: "length xs = length ys \<Longrightarrow> diffCount xs ys = 0 \<Longrightarrow> xs = ys"
  by (induction xs ys rule: list_induct2) (auto split: if_splits)

lemma mergeBinary_same [simp]: "mergeBinary xs xs = xs"
  by (induction xs) auto

text \<open>
Two patterns with the same number of dashes that differ in one position hold 0 and 1 there.
\<close>

lemma merge_position:
  assumes "length xs = length ys" "diffCount xs ys = 1" "dashes xs = dashes ys"
  shows "\<exists>p < length xs. xs ! p \<noteq> ys ! p \<and> xs ! p \<noteq> CHR ''-'' \<and> ys ! p \<noteq> CHR ''-'' \<and>
           (\<forall>q < length xs. q \<noteq> p \<longrightarrow> xs ! q = ys ! q) \<and>
           mergeBinary xs ys = xs[p := CHR ''-'']"
  using assms
proof (induction xs ys rule: list_induct2)
  case Nil
  then show ?case by simp
next
  case (Cons x xs y ys)
  show ?case
  proof (cases "x = y")
    case True
    with Cons obtain p where p: "p < length xs" "xs ! p \<noteq> ys ! p" "xs ! p \<noteq> CHR ''-''" "ys ! p \<noteq> CHR ''-''"
      "\<forall>q < length xs. q \<noteq> p \<longrightarrow> xs ! q = ys ! q" "mergeBinary xs ys = xs[p := CHR ''-'']"
      by (auto split: if_splits)
    have "\<forall>q < length (x # xs). q \<noteq> Suc p \<longrightarrow> (x # xs) ! q = (y # ys) ! q"
      using p(5) True by (auto simp: nth_Cons split: nat.splits)
    then show ?thesis using p True by (intro exI[of _ "Suc p"]) auto
  next
    case False
    then have "diffCount xs ys = 0" using Cons by simp
    then have eq: "xs = ys" using Cons diffCount_0 by blast
    then have "x \<noteq> CHR ''-''" "y \<noteq> CHR ''-''" using Cons(4) False by (auto split: if_splits)
    moreover have "\<forall>q < length (x # xs). q \<noteq> 0 \<longrightarrow> (x # xs) ! q = (y # ys) ! q"
      using eq by (auto simp: nth_Cons split: nat.splits)
    ultimately show ?thesis using False eq by (intro exI[of _ 0]) auto
  qed
qed

lemma merge_matches:
  assumes "length xs = length ys" "diffCount xs ys = 1" "dashes xs = dashes ys"
    "set xs \<subseteq> {CHR ''0'', CHR ''1'', CHR ''-''}" "set ys \<subseteq> {CHR ''0'', CHR ''1'', CHR ''-''}"
    "set tb \<subseteq> {CHR ''0'', CHR ''1''}" "length tb = length xs"
  shows "matches (mergeBinary xs ys) tb = (matches xs tb \<or> matches ys tb)"
  using assms
proof (induction xs ys arbitrary: tb rule: list_induct2)
  case Nil
  then show ?case by simp
next
  case (Cons x xs y ys)
  then obtain b tb' where tb: "tb = b # tb'" by (cases tb) auto
  show ?case
  proof (cases "x = y")
    case True
    with Cons tb show ?thesis by (auto split: if_splits)
  next
    case False
    then have "diffCount xs ys = 0" using Cons by simp
    then have eq: "xs = ys" using Cons diffCount_0 by blast
    then have "x \<noteq> CHR ''-''" "y \<noteq> CHR ''-''" using Cons(4) False by (auto split: if_splits)
    then show ?thesis using False eq tb Cons.prems by auto
  qed
qed

lemma merge_dashes:
  assumes "length xs = length ys" "diffCount xs ys = 1" "dashes xs = dashes ys"
  shows "dashes (mergeBinary xs ys) = Suc (dashes xs)"
  using assms
proof (induction xs ys rule: list_induct2)
  case Nil
  then show ?case by simp
next
  case (Cons x xs y ys)
  show ?case
  proof (cases "x = y")
    case True
    with Cons show ?thesis by (auto split: if_splits)
  next
    case False
    then have "diffCount xs ys = 0" using Cons by simp
    then have eq: "xs = ys" using Cons diffCount_0 by blast
    then have "x \<noteq> CHR ''-''" "y \<noteq> CHR ''-''" using Cons(4) False by (auto split: if_splits)
    then show ?thesis using False eq by auto
  qed
qed

lemma set_mergeBinary:
  "set (mergeBinary xs ys) \<subseteq> insert (CHR ''-'') (set xs)"
  by (induction xs ys rule: mergeBinary.induct) auto

text \<open>
Whatever a parent matches, the merge matches.
\<close>

lemma merge_matches_left:
  "length xs = length ys \<Longrightarrow> matches xs tb \<Longrightarrow> matches (mergeBinary xs ys) tb"
  by (induction xs ys arbitrary: tb rule: list_induct2) (auto simp: matches_def list_all2_Cons1)

lemma merge_matches_right:
  "length xs = length ys \<Longrightarrow> matches ys tb \<Longrightarrow> matches (mergeBinary xs ys) tb"
  by (induction xs ys arbitrary: tb rule: list_induct2) (auto simp: matches_def list_all2_Cons1)

lemma covers_binary: "binary a = binary b \<Longrightarrow> covers a t nv = covers b t nv"
  by (simp add: covers_def)

subsection \<open>The invariant of the merge rounds\<close>

text \<open>
  An implicant of the round with \<open>d\<close> dashes, over the term list \<open>T\<close>: its pattern has
  length \<open>numVars\<close> and \<open>d\<close> dashes, and its minterm list holds exactly the terms in range
  that the pattern covers, all of them terms of \<open>T\<close>.
\<close>

definition in_range :: "int \<Rightarrow> int \<Rightarrow> bool" where
  "in_range nv t = (0 \<le> t \<and> t \<le> 2 ^ nat nv - 1)"

definition wf_imp :: "int \<Rightarrow> int list \<Rightarrow> nat \<Rightarrow> Implicant \<Rightarrow> bool" where
  "wf_imp nv T d imp =
     (length (binary imp) = nat nv \<and>
      set (binary imp) \<subseteq> {CHR ''0'', CHR ''1'', CHR ''-''} \<and>
      dashes (binary imp) = d \<and>
      set (iminterms imp) \<subseteq> set T \<and>
      (\<forall>t. in_range nv t \<longrightarrow> covers imp t nv = (t \<in> set (iminterms imp))))"

lemma matches_nodash:
  "dashes p = 0 \<Longrightarrow> matches p tb = (p = tb)"
  by (induction p arbitrary: tb) (auto simp: matches_def list_all2_Cons1 split: if_splits)

lemma dashes_0_iff: "dashes s = 0 \<longleftrightarrow> CHR ''-'' \<notin> set s"
  by (induction s) auto

lemma wf_Implicant_term:
  assumes "in_range nv t" "t \<in> set T"
  shows "wf_imp nv T 0 (Implicant_term t nv)"
proof -
  have d0: "dashes (intToBinary t nv) = 0"
    using set_intToBinary[of t nv] by (auto simp: dashes_0_iff)
  have "covers (Implicant_term t nv) u nv = (u = t)" if "in_range nv u" for u
  proof -
    have "covers (Implicant_term t nv) u nv = (intToBinary t nv = intToBinary u nv)"
      by (simp add: covers_matches Implicant_term_def matches_nodash d0)
    also have "\<dots> = (u = t)"
      using intToBinary_inj[of t nv u] assms(1) that by (auto simp: in_range_def)
    finally show ?thesis .
  qed
  then show ?thesis
    using assms(2) d0 set_intToBinary[of t nv]
    by (auto simp: wf_imp_def Implicant_term_def)
qed

lemma wf_Implicant_merge:
  assumes "wf_imp nv T d a" "wf_imp nv T d b" "canMerge a b"
  shows "wf_imp nv T (Suc d) (Implicant_merge a b)"
proof -
  have len: "length (binary a) = length (binary b)" and dc: "diffCount (binary a) (binary b) = 1"
    using assms(3) by (simp_all add: canMerge_iff)
  have da: "dashes (binary a) = dashes (binary b)" using assms by (simp add: wf_imp_def)
  have la: "length (binary a) = nat nv" using assms by (simp add: wf_imp_def)
  have lb: "length (binary b) = nat nv" using assms by (simp add: wf_imp_def)
  have c: "covers (Implicant_merge a b) t nv = (t \<in> set (iminterms (Implicant_merge a b)))"
    if "in_range nv t" for t
  proof -
    have "covers (Implicant_merge a b) t nv = matches (mergeBinary (binary a) (binary b)) (intToBinary t nv)"
      by (subst covers_matches) (simp_all add: Implicant_merge_def length_mergeBinary la lb)
    also have "\<dots> = (matches (binary a) (intToBinary t nv) \<or> matches (binary b) (intToBinary t nv))"
      using assms(1,2) set_intToBinary[of t nv]
      by (intro merge_matches len dc da) (auto simp: wf_imp_def)
    also have "\<dots> = (covers a t nv \<or> covers b t nv)"
      using la lb by (simp add: covers_matches)
    also have "\<dots> = (t \<in> set (iminterms (Implicant_merge a b)))"
      using assms(1,2) that by (auto simp: wf_imp_def Implicant_merge_def)
    finally show ?thesis .
  qed
  have "set (mergeBinary (binary a) (binary b)) \<subseteq> {CHR ''0'', CHR ''1'', CHR ''-''}"
    using set_mergeBinary[of "binary a" "binary b"] assms(1) by (auto simp: wf_imp_def)
  moreover have "dashes (mergeBinary (binary a) (binary b)) = Suc d"
    using merge_dashes[OF len dc da] assms(1) by (simp add: wf_imp_def)
  moreover have "set (iminterms (Implicant_merge a b)) \<subseteq> set T"
    using assms(1,2) by (auto simp: wf_imp_def Implicant_merge_def)
  ultimately show ?thesis
    using c la lb by (simp add: wf_imp_def Implicant_merge_def length_mergeBinary)
qed

lemma wf_mergeRound:
  assumes "\<forall>imp \<in> set (flat gs). wf_imp nv T d imp"
  shows "\<forall>imp \<in> set (flat (newGroups (mergeRound gs))). wf_imp nv T (Suc d) imp"
proof
  fix imp assume "imp \<in> set (flat (newGroups (mergeRound gs)))"
  then have "merged_from (flat gs) imp"
    using round_inv_mergeRound[of gs] by (simp add: round_inv_def)
  then show "wf_imp nv T (Suc d) imp"
    using assms by (auto simp: merged_from_def intro: wf_Implicant_merge)
qed

lemma set_flat_initialGroups:
  "set (flat (initialGroups terms nv)) = (\<lambda>t. Implicant_term t nv) ` set terms"
proof -
  have "set (flat (fold (\<lambda>term gs. push_group (countOnes (Implicant_term term nv)) (Implicant_term term nv) gs) terms gs0))
        = (\<lambda>t. Implicant_term t nv) ` set terms \<union> set (flat gs0)" for gs0
    by (induction terms arbitrary: gs0) (auto simp: flat_push_group)
  then show ?thesis by (simp add: initialGroups_def)
qed

lemma wf_initialGroups:
  assumes "\<forall>t \<in> set T. in_range nv t"
  shows "\<forall>imp \<in> set (flat (initialGroups T nv)). wf_imp nv T 0 imp"
  using assms by (auto simp: set_flat_initialGroups intro: wf_Implicant_term)

lemma rounds_nonempty:
  "terms \<noteq> [] \<Longrightarrow> initialGroups terms nv \<noteq> []"
  "changed (mergeRound gs) \<Longrightarrow> newGroups (mergeRound gs) \<noteq> []"
proof -
  assume "terms \<noteq> []"
  then obtain t where "t \<in> set terms" by (cases terms) auto
  then have "set (flat (initialGroups terms nv)) \<noteq> {}" by (auto simp: set_flat_initialGroups)
  then show "initialGroups terms nv \<noteq> []" by auto
next
  assume "changed (mergeRound gs)"
  then have "flat (newGroups (mergeRound gs)) \<noteq> []"
    using round_inv_mergeRound[of gs] by (simp add: round_inv_def)
  then show "newGroups (mergeRound gs) \<noteq> []" by auto
qed

text \<open>
  The groups the loop works on in its round \<open>k + 1\<close> are the \<open>k\<close>-th iterate of
  \<open>nextGroups\<close>, for every round the loop performs.
\<close>

lemma primeLoop_reaches_round:
  "k < loopRounds gs \<Longrightarrow>
   \<exists>primes'. primeLoop gs primes = primeLoop ((nextGroups ^^ k) gs) primes' \<and>
             loopRounds gs = k + loopRounds ((nextGroups ^^ k) gs)"
proof (induction k arbitrary: gs primes)
  case 0
  then show ?case by auto
next
  case (Suc k)
  have ch: "changed (mergeRound gs)"
  proof (rule ccontr)
    assume "\<not> changed (mergeRound gs)"
    then have "loopRounds gs = 1" by (subst loopRounds.simps) simp
    then show False using Suc.prems by simp
  qed
  then have l: "loopRounds gs = Suc (loopRounds (nextGroups gs))"
    by (subst loopRounds.simps) (simp add: nextGroups_def)
  have p: "primeLoop gs primes =
           primeLoop (nextGroups gs) (collectUnmarked gs (marked (mergeRound gs)) 0 primes)"
    using ch by (subst primeLoop.simps) (simp add: nextGroups_def)
  have "k < loopRounds (nextGroups gs)" using Suc.prems l by simp
  from Suc.IH[OF this, of "collectUnmarked gs (marked (mergeRound gs)) 0 primes"]
  show ?case unfolding p l by (simp add: funpow_swap1)
qed

lemma wf_roundGroups:
  assumes "\<forall>t \<in> set T. in_range nv t"
  shows "\<forall>imp \<in> set (flat (roundGroups T nv (Suc j))). wf_imp nv T j imp"
proof (induction j)
  case 0
  then show ?case using wf_initialGroups[OF assms] by (simp add: roundGroups_def)
next
  case (Suc j)
  have "roundGroups T nv (Suc (Suc j)) = newGroups (mergeRound (roundGroups T nv (Suc j)))"
    by (simp add: roundGroups_def nextGroups_def)
  then show ?case using wf_mergeRound[OF Suc] by simp
qed

lemma wf_imp_minterms:
  assumes "wf_imp nv T d imp" "\<forall>t \<in> set T. in_range nv t"
  shows "set (iminterms imp) = {t \<in> set T. covers imp t nv}"
  using assms unfolding wf_imp_def by blast

lemma wf_imp_merge_position:
  assumes "wf_imp nv T d a" "wf_imp nv T d b" "canMerge a b"
  shows "\<exists>p < length (binary a).
           {binary a ! p, binary b ! p} = {CHR ''0'', CHR ''1''} \<and>
           (\<forall>q < length (binary a). q \<noteq> p \<longrightarrow> binary a ! q = binary b ! q) \<and>
           binary (Implicant_merge a b) = (binary a)[p := CHR ''-'']"
proof -
  have len: "length (binary a) = length (binary b)" and dc: "diffCount (binary a) (binary b) = 1"
    using assms(3) by (simp_all add: canMerge_iff)
  have da: "dashes (binary a) = dashes (binary b)" using assms by (simp add: wf_imp_def)
  from merge_position[OF len dc da] obtain p where p: "p < length (binary a)"
    "binary a ! p \<noteq> binary b ! p" "binary a ! p \<noteq> CHR ''-''" "binary b ! p \<noteq> CHR ''-''"
    "\<forall>q < length (binary a). q \<noteq> p \<longrightarrow> binary a ! q = binary b ! q"
    "mergeBinary (binary a) (binary b) = (binary a)[p := CHR ''-'']" by blast
  have "binary a ! p \<in> {CHR ''0'', CHR ''1'', CHR ''-''}"
    using assms(1) p(1) unfolding wf_imp_def by (metis nth_mem subsetD)
  moreover have "binary b ! p \<in> {CHR ''0'', CHR ''1'', CHR ''-''}"
    using assms(2) p(1) len unfolding wf_imp_def by (metis nth_mem subsetD)
  ultimately have "{binary a ! p, binary b ! p} = {CHR ''0'', CHR ''1''}"
    using p(2,3,4) by auto
  then show ?thesis using p(1,5,6) by (auto simp: Implicant_merge_def)
qed

subsection \<open>The primes collected by the loop\<close>

lemma set_collect_fold:
  "set (fold (\<lambda>i ps. if \<not> mk ! (off + i) then ps @ [(g ! i)\<lparr>isPrime := True\<rparr>] else ps) [0..<n] primes)
   = set primes \<union> {(g ! i)\<lparr>isPrime := True\<rparr> | i. i < n \<and> \<not> mk ! (off + i)}"
  by (induction n) (auto simp: less_Suc_eq)

lemma set_collectUnmarked:
  "set (collectUnmarked gs mk off primes)
   = set primes \<union> {(flat gs ! i)\<lparr>isPrime := True\<rparr> | i. i < length (flat gs) \<and> \<not> mk ! (off + i)}"
proof (induction gs mk off primes rule: collectUnmarked.induct)
  case (1 mk markIndex primes)
  then show ?case by simp
next
  case (2 key g rest mk markIndex primes)
  have "{(flat ((key, g) # rest) ! i)\<lparr>isPrime := True\<rparr> | i. i < length (flat ((key, g) # rest)) \<and> \<not> mk ! (markIndex + i)}
      = {(g ! i)\<lparr>isPrime := True\<rparr> | i. i < length g \<and> \<not> mk ! (markIndex + i)}
        \<union> {(flat rest ! i)\<lparr>isPrime := True\<rparr> | i. i < length (flat rest) \<and> \<not> mk ! (markIndex + length g + i)}"
    (is "?L = ?A \<union> ?B")
  proof (intro set_eqI iffI)
    fix x assume "x \<in> ?L"
    then obtain i where i: "i < length g + length (flat rest)" "\<not> mk ! (markIndex + i)"
      "x = ((g @ flat rest) ! i)\<lparr>isPrime := True\<rparr>" by auto
    show "x \<in> ?A \<union> ?B"
    proof (cases "i < length g")
      case True
      then show ?thesis using i by (auto simp: nth_append)
    next
      case False
      then have "i - length g < length (flat rest)" "\<not> mk ! (markIndex + length g + (i - length g))"
        "x = (flat rest ! (i - length g))\<lparr>isPrime := True\<rparr>"
        using i by (auto simp: nth_append)
      then show ?thesis by blast
    qed
  next
    fix x assume "x \<in> ?A \<union> ?B"
    then show "x \<in> ?L"
    proof
      assume "x \<in> ?A"
      then show ?thesis by (auto simp: nth_append)
    next
      assume "x \<in> ?B"
      then obtain i where i: "i < length (flat rest)" "\<not> mk ! (markIndex + length g + i)"
        "x = (flat rest ! i)\<lparr>isPrime := True\<rparr>" by auto
      then have "length g + i < length (flat ((key, g) # rest))"
        "\<not> mk ! (markIndex + (length g + i))"
        "x = (flat ((key, g) # rest) ! (length g + i))\<lparr>isPrime := True\<rparr>"
        by (auto simp: nth_append add.assoc)
      then show ?thesis by blast
    qed
  qed
  then show ?case using 2 by (simp add: set_collect_fold Un_assoc)
qed

lemma covers_isPrime [simp]: "covers (x\<lparr>isPrime := b\<rparr>) t nv = covers x t nv"
  by (simp add: covers_def)

lemma covers_isEssential [simp]: "covers (x\<lparr>isEssential := b\<rparr>) t nv = covers x t nv"
  by (simp add: covers_def)

lemma wf_imp_isPrime [simp]: "wf_imp nv T d (x\<lparr>isPrime := b\<rparr>) = wf_imp nv T d x"
  by (simp add: wf_imp_def)

lemma wf_imp_isEssential [simp]: "wf_imp nv T d (x\<lparr>isEssential := b\<rparr>) = wf_imp nv T d x"
  by (simp add: wf_imp_def)

lemma absorbed_covers:
  assumes "absorbed x m" "length (binary x) = nat nv" "covers x t nv"
  shows "covers m t nv"
proof -
  from assms(1) obtain y where
    y: "(canMerge x y \<and> m = Implicant_merge x y) \<or> (canMerge y x \<and> m = Implicant_merge y x)"
    by (auto simp: absorbed_def)
  have mx: "matches (binary x) (intToBinary t nv)" using assms by (simp add: covers_matches)
  from y show ?thesis
  proof
    assume h: "canMerge x y \<and> m = Implicant_merge x y"
    then have len: "length (binary x) = length (binary y)" by (simp add: canMerge_iff)
    have "length (binary m) = nat nv" using h len assms(2) by (simp add: Implicant_merge_def length_mergeBinary)
    moreover have "matches (binary m) (intToBinary t nv)"
      using h merge_matches_left[OF len mx] by (simp add: Implicant_merge_def)
    ultimately show ?thesis by (simp add: covers_matches)
  next
    assume h: "canMerge y x \<and> m = Implicant_merge y x"
    then have len: "length (binary y) = length (binary x)" by (simp add: canMerge_iff)
    have "length (binary m) = nat nv" using h len assms(2) by (simp add: Implicant_merge_def length_mergeBinary)
    moreover have "matches (binary m) (intToBinary t nv)"
      using h merge_matches_right[OF len mx] by (simp add: Implicant_merge_def)
    ultimately show ?thesis by (simp add: covers_matches)
  qed
qed

lemma collect_wf:
  assumes "\<forall>imp \<in> set (flat gs). wf_imp nv T d imp" "\<forall>p \<in> set primes. \<exists>d. wf_imp nv T d p"
  shows "\<forall>p \<in> set (collectUnmarked gs mk 0 primes). \<exists>d. wf_imp nv T d p"
  using assms by (auto simp: set_collectUnmarked) (metis nth_mem)

lemma primeLoop_wf:
  assumes "\<forall>imp \<in> set (flat gs). wf_imp nv T d imp" "\<forall>p \<in> set primes. \<exists>d. wf_imp nv T d p"
  shows "\<forall>p \<in> set (primeLoop gs primes). \<exists>d. wf_imp nv T d p"
  using assms
proof (induction gs primes arbitrary: d rule: primeLoop.induct)
  case (1 gs primes)
  let ?primes = "collectUnmarked gs (marked (mergeRound gs)) 0 primes"
  have c: "\<forall>p \<in> set ?primes. \<exists>d. wf_imp nv T d p" using 1(2,3) by (rule collect_wf)
  show ?case
  proof (cases "changed (mergeRound gs)")
    case True
    have "\<forall>p \<in> set (primeLoop (newGroups (mergeRound gs)) ?primes). \<exists>d. wf_imp nv T d p"
      using True wf_mergeRound[OF 1(2)] c by (rule 1(1))
    then show ?thesis using True by (subst primeLoop.simps) simp
  next
    case False
    then show ?thesis using c by (subst primeLoop.simps) simp
  qed
qed

lemma primeLoop_complete:
  assumes "\<forall>imp \<in> set (flat gs). wf_imp nv T d imp"
  shows "\<forall>x \<in> set (flat gs) \<union> set primes.
           \<exists>p \<in> set (primeLoop gs primes). \<forall>t. covers x t nv \<longrightarrow> covers p t nv"
  using assms
proof (induction gs primes arbitrary: d rule: primeLoop.induct)
  case (1 gs primes)
  let ?st = "mergeRound gs"
  let ?primes = "collectUnmarked gs (marked ?st) 0 primes"
  have inv: "round_inv (flat gs) ?st" by (rule round_inv_mergeRound)
  have keep: "\<exists>p \<in> set (primeLoop gs primes). \<forall>t. covers x t nv \<longrightarrow> covers p t nv"
    if "x \<in> set ?primes" for x
  proof (cases "changed ?st")
    case True
    have "\<forall>x \<in> set (flat (newGroups ?st)) \<union> set ?primes.
            \<exists>p \<in> set (primeLoop (newGroups ?st) ?primes). \<forall>t. covers x t nv \<longrightarrow> covers p t nv"
      using True wf_mergeRound[OF 1(2)] by (rule 1(1))
    then show ?thesis using True that by (subst primeLoop.simps) simp
  next
    case False
    then show ?thesis using that by (subst primeLoop.simps) auto
  qed
  show ?case
  proof
    fix x assume "x \<in> set (flat gs) \<union> set primes"
    then consider "x \<in> set primes" | "x \<in> set (flat gs)" by blast
    then show "\<exists>p \<in> set (primeLoop gs primes). \<forall>t. covers x t nv \<longrightarrow> covers p t nv"
    proof cases
      case 1
      then have "x \<in> set ?primes" by (simp add: set_collectUnmarked)
      then show ?thesis by (rule keep)
    next
      case 2
      then obtain idx where idx: "idx < length (flat gs)" "x = flat gs ! idx"
        by (auto simp: in_set_conv_nth)
      show ?thesis
      proof (cases "marked ?st ! idx")
        case False
        then have "x\<lparr>isPrime := True\<rparr> \<in> set ?primes"
          using idx by (auto simp: set_collectUnmarked)
        from keep[OF this] show ?thesis by simp
      next
        case True
        then obtain m where m: "m \<in> set (flat (newGroups ?st))" "absorbed x m"
          using inv idx by (auto simp: round_inv_def)
        then have ch: "changed ?st" using inv by (auto simp: round_inv_def)
        have "\<forall>x \<in> set (flat (newGroups ?st)) \<union> set ?primes.
            \<exists>p \<in> set (primeLoop (newGroups ?st) ?primes). \<forall>t. covers x t nv \<longrightarrow> covers p t nv"
          using ch wf_mergeRound[OF 1(2)] by (rule 1(1))
        then obtain p where p: "p \<in> set (primeLoop (newGroups ?st) ?primes)"
          "\<forall>t. covers m t nv \<longrightarrow> covers p t nv" using m(1) by blast
        have lx: "length (binary x) = nat nv" using 1(2) 2 by (simp add: wf_imp_def)
        have "\<forall>t. covers x t nv \<longrightarrow> covers p t nv"
          using p(2) absorbed_covers[OF m(2) lx] by blast
        moreover have "p \<in> set (primeLoop gs primes)"
          using p(1) ch by (subst primeLoop.simps) simp
        ultimately show ?thesis by blast
      qed
    qed
  qed
qed

lemma dashes_le_length: "dashes s \<le> length s"
  by (simp add: dashes_def)

lemma loopRounds_bound:
  assumes "\<forall>imp \<in> set (flat gs). wf_imp nv T d imp" "d \<le> nat nv"
  shows "loopRounds gs + d \<le> nat nv + 1"
  using assms
proof (induction gs arbitrary: d rule: loopRounds.induct)
  case (1 gs)
  show ?case
  proof (cases "changed (mergeRound gs)")
    case True
    then obtain m where m: "m \<in> set (flat (newGroups (mergeRound gs)))"
      using round_inv_mergeRound[of gs] by (auto simp: round_inv_def dest: last_in_set)
    then have "wf_imp nv T (Suc d) m" using wf_mergeRound[OF 1(2)] by blast
    then have "Suc d \<le> nat nv" using dashes_le_length[of "binary m"] by (simp add: wf_imp_def)
    with 1(1)[OF True wf_mergeRound[OF 1(2)]] have "loopRounds (newGroups (mergeRound gs)) + Suc d \<le> nat nv + 1"
      by blast
    then show ?thesis using True by (subst loopRounds.simps) simp
  next
    case False
    then show ?thesis using 1(3) by (subst loopRounds.simps) simp
  qed
qed

lemma set_unique_by_subset: "set (unique_by eq xs) \<subseteq> set xs"
  by (induction eq xs rule: unique_by.induct) auto

lemma image_unique_by: "f ` set (unique_by (\<lambda>a b. f a = f b) xs) = f ` set xs"
  by (induction "\<lambda>a b. f a = f b" xs rule: unique_by.induct) auto

lemma set_unique_by_eq: "set (unique_by (=) xs) = set xs"
  using image_unique_by[of "\<lambda>x. x" xs] by simp

lemma set_allTerms: "set (allTerms qm) = set (minterms qm) \<union> set (dontcares qm)"
  by (simp add: allTerms_def set_unique_by_eq)

lemma set_removeDuplicates: "set (removeDuplicates xs) \<subseteq> set xs"
  using set_unique_by_subset[of _ "sort_key binary xs"] by (simp add: removeDuplicates_def)

lemma binary_removeDuplicates: "binary ` set (removeDuplicates xs) = binary ` set xs"
  by (simp add: removeDuplicates_def image_unique_by)

lemma primes_wf:
  assumes "\<forall>t \<in> set T. in_range (numVars qm) t"
  shows "\<forall>p \<in> set (findPrimeImplicants qm T). \<exists>d. wf_imp (numVars qm) T d p"
proof (cases "T = []")
  case True
  then show ?thesis by (simp add: findPrimeImplicants_def)
next
  case False
  have "\<forall>p \<in> set (primeLoop (initialGroups T (numVars qm)) []). \<exists>d. wf_imp (numVars qm) T d p"
    by (rule primeLoop_wf[OF wf_initialGroups[OF assms]]) simp
  moreover have "set (findPrimeImplicants qm T) \<subseteq> set (primeLoop (initialGroups T (numVars qm)) [])"
    using False by (simp add: findPrimeImplicants_def set_removeDuplicates)
  ultimately show ?thesis by blast
qed

lemma primes_complete:
  assumes "\<forall>t \<in> set T. in_range (numVars qm) t"
  shows "\<forall>t \<in> set T. \<exists>p \<in> set (findPrimeImplicants qm T). covers p t (numVars qm)"
proof
  fix t assume t: "t \<in> set T"
  let ?nv = "numVars qm"
  let ?x = "Implicant_term t ?nv"
  have ne: "T \<noteq> []" using t by auto
  have "wf_imp ?nv T 0 ?x" using wf_Implicant_term assms t by blast
  then have cx: "covers ?x t ?nv" using assms t by (simp add: wf_imp_def Implicant_term_def)
  have "?x \<in> set (flat (initialGroups T ?nv))" using t by (simp add: set_flat_initialGroups)
  then obtain p where p: "p \<in> set (primeLoop (initialGroups T ?nv) [])" "covers p t ?nv"
    using primeLoop_complete[OF wf_initialGroups[OF assms], of "[]"] cx by blast
  then have "binary p \<in> binary ` set (removeDuplicates (primeLoop (initialGroups T ?nv) []))"
    by (simp add: binary_removeDuplicates)
  then obtain p' where "p' \<in> set (removeDuplicates (primeLoop (initialGroups T ?nv) []))"
    "binary p' = binary p" by auto
  then have "p' \<in> set (findPrimeImplicants qm T)" "covers p' t ?nv"
    using ne p(2) covers_binary[of p' p] by (simp_all add: findPrimeImplicants_def)
  then show "\<exists>p \<in> set (findPrimeImplicants qm T). covers p t ?nv" by blast
qed

subsection \<open>Essential primes and the greedy cover\<close>

lemma essential_from_primes:
  "\<forall>e \<in> set (findEssentialPrimes qm primes). \<exists>p \<in> set primes. e = p\<lparr>isEssential := True\<rparr>"
  unfolding findEssentialPrimes_def
proof (rule fold_invariant)
  show "\<forall>e \<in> set []. \<exists>p \<in> set primes. e = p\<lparr>isEssential := True\<rparr>" by simp
next
  fix minterm and ess :: "Implicant list"
  assume inv: "\<forall>e \<in> set ess. \<exists>p \<in> set primes. e = p\<lparr>isEssential := True\<rparr>"
  let ?cp = "filter (\<lambda>imp. covers imp minterm (numVars qm)) primes"
  have "?cp ! 0 \<in> set primes" if "length ?cp = 1"
  proof -
    have "?cp ! 0 \<in> set ?cp" using that by (intro nth_mem) simp
    then show ?thesis by simp
  qed
  then show "\<forall>e \<in> set (let coveringPrimes = ?cp
             in if length coveringPrimes = 1 then
                  (if \<exists>ep \<in> set ess. binary ep = binary (coveringPrimes ! 0)
                   then ess
                   else ess @ [(coveringPrimes ! 0)\<lparr>isEssential := True\<rparr>])
                else ess). \<exists>p \<in> set primes. e = p\<lparr>isEssential := True\<rparr>"
    using inv by (auto simp: Let_def)
qed

lemma set_erase_subset: "set (erase xs i) \<subseteq> set xs"
  by (auto simp: erase_def dest: in_set_takeD in_set_dropD)

lemma set_erase_other:
  assumes "x \<in> set xs" "x \<noteq> xs ! i"
  shows "x \<in> set (erase xs i)"
proof -
  from assms(1) obtain j where j: "j < length xs" "xs ! j = x" by (auto simp: in_set_conv_nth)
  then have ji: "j \<noteq> i" using assms(2) by auto
  show ?thesis
  proof (cases "j < i")
    case True
    then have "x \<in> set (take i xs)" using j by (auto simp: in_set_conv_nth)
    then show ?thesis by (simp add: erase_def)
  next
    case False
    then have "Suc i \<le> j" using ji by simp
    then have "drop (Suc i) xs ! (j - Suc i) = xs ! j" "j - Suc i < length (drop (Suc i) xs)"
      using j by simp_all
    then have "xs ! j \<in> set (drop (Suc i) xs)" by (metis nth_mem)
    then show ?thesis using j by (simp add: erase_def)
  qed
qed

lemma length_erase: "i < length xs \<Longrightarrow> length (erase xs i) + 1 = length xs"
  by (auto simp: erase_def)

lemma greedyLoop_stop: "u = [] \<or> r = [] \<Longrightarrow> greedyLoop qm u r c = c"
  by (subst greedyLoop.simps) auto

lemma greedyLoop_step:
  assumes "u \<noteq> []" "r \<noteq> []"
  shows "greedyLoop qm u r c =
         greedyLoop qm
           (filter (\<lambda>minterm. \<not> covers (r ! nat (snd (findBest qm u r))) minterm (numVars qm)) u)
           (erase r (nat (snd (findBest qm u r))))
           (c @ [r ! nat (snd (findBest qm u r))])"
proof -
  have "0 \<le> snd (findBest qm u r)" using findBest_range[OF assms(2)] by simp
  then show ?thesis using assms by (subst greedyLoop.simps) simp
qed

lemma greedyLoop_subset: "set (greedyLoop qm u r c) \<subseteq> set c \<union> set r"
proof (induction qm u r c rule: greedyLoop.induct)
  case (1 qm u r c)
  show ?case
  proof (cases "u \<noteq> [] \<and> r \<noteq> []")
    case False
    then have "greedyLoop qm u r c = c" by (simp add: greedyLoop_stop)
    then show ?thesis by simp
  next
    case True
    let ?bi = "nat (snd (findBest qm u r))"
    let ?u = "filter (\<lambda>minterm. \<not> covers (r ! ?bi) minterm (numVars qm)) u"
    have range: "0 \<le> snd (findBest qm u r)" "?bi < length r"
      using True findBest_range[of r qm u] by auto
    have eq: "greedyLoop qm u r c = greedyLoop qm ?u (erase r ?bi) (c @ [r ! ?bi])"
      using True by (intro greedyLoop_step) simp_all
    have "set (greedyLoop qm ?u (erase r ?bi) (c @ [r ! ?bi])) \<subseteq> set (c @ [r ! ?bi]) \<union> set (erase r ?bi)"
      using True range(1) by (rule 1(1))
    moreover have "r ! ?bi \<in> set r" using range(2) by simp
    ultimately show ?thesis
      using set_erase_subset[of r ?bi] unfolding eq by auto
  qed
qed

lemma greedyLoop_covers:
  assumes "\<forall>m \<in> set u. \<exists>p \<in> set r. covers p m (numVars qm)"
  shows "set c \<subseteq> set (greedyLoop qm u r c) \<and>
         (\<forall>m \<in> set u. \<exists>x \<in> set (greedyLoop qm u r c). covers x m (numVars qm))"
  using assms
proof (induction qm u r c rule: greedyLoop.induct)
  case (1 qm u r c)
  show ?case
  proof (cases "u \<noteq> [] \<and> r \<noteq> []")
    case False
    then have "u = []" using 1(3) by (cases u) auto
    moreover have "greedyLoop qm u r c = c" using False by (simp add: greedyLoop_stop)
    ultimately show ?thesis by simp
  next
    case True
    let ?bi = "nat (snd (findBest qm u r))"
    let ?u = "filter (\<lambda>minterm. \<not> covers (r ! ?bi) minterm (numVars qm)) u"
    have range: "0 \<le> snd (findBest qm u r)" "?bi < length r"
      using True findBest_range[of r qm u] by auto
    have eq: "greedyLoop qm u r c = greedyLoop qm ?u (erase r ?bi) (c @ [r ! ?bi])"
      using True by (intro greedyLoop_step) simp_all
    have pre: "\<forall>m \<in> set ?u. \<exists>p \<in> set (erase r ?bi). covers p m (numVars qm)"
    proof
      fix m assume m: "m \<in> set ?u"
      then obtain p where p: "p \<in> set r" "covers p m (numVars qm)" using 1(3) by auto
      moreover have "\<not> covers (r ! ?bi) m (numVars qm)" using m by simp
      ultimately have "p \<noteq> r ! ?bi" by blast
      with p(1) have "p \<in> set (erase r ?bi)" by (rule set_erase_other)
      with p(2) show "\<exists>p \<in> set (erase r ?bi). covers p m (numVars qm)"
        by (intro bexI[of _ p])
    qed
    have ih: "set (c @ [r ! ?bi]) \<subseteq> set (greedyLoop qm u r c) \<and>
         (\<forall>m \<in> set ?u. \<exists>x \<in> set (greedyLoop qm u r c). covers x m (numVars qm))"
      unfolding eq by (rule 1(1)[OF True range(1) pre])
    show ?thesis
    proof (intro conjI ballI)
      show "set c \<subseteq> set (greedyLoop qm u r c)" using ih by auto
    next
      fix m assume m: "m \<in> set u"
      show "\<exists>x \<in> set (greedyLoop qm u r c). covers x m (numVars qm)"
      proof (cases "covers (r ! ?bi) m (numVars qm)")
        case True
        moreover have "r ! ?bi \<in> set (greedyLoop qm u r c)" using ih by auto
        ultimately show ?thesis by blast
      next
        case False
        then have "m \<in> set ?u" using m by simp
        then show ?thesis using ih by blast
      qed
    qed
  qed
qed

lemma set_uncovered:
  "set (fold (\<lambda>minterm uncovered. if P minterm then uncovered else insort_insert minterm uncovered) ms u0)
   = set u0 \<union> {m \<in> set ms. \<not> P m}"
  by (induction ms arbitrary: u0) (auto simp: set_insort_insert)

lemma findMinimalCover_subset:
  "set (findMinimalCover qm ess primes) \<subseteq> set ess \<union> set primes"
  using greedyLoop_subset[of qm _ "filter (\<lambda>imp. \<not> (\<exists>ep \<in> set ess. binary ep = binary imp)) primes" ess]
  by (auto simp: findMinimalCover_def Let_def)

lemma findMinimalCover_covers:
  assumes "\<forall>m \<in> set (minterms qm). \<exists>p \<in> set primes. covers p m (numVars qm)"
  shows "\<forall>m \<in> set (minterms qm). \<exists>c \<in> set (findMinimalCover qm ess primes). covers c m (numVars qm)"
proof
  fix m assume m: "m \<in> set (minterms qm)"
  let ?nv = "numVars qm"
  let ?u = "fold (\<lambda>minterm uncovered.
                    if \<exists>imp \<in> set ess. covers imp minterm ?nv
                    then uncovered else insort_insert minterm uncovered)
                 (minterms qm) []"
  let ?r = "filter (\<lambda>imp. \<not> (\<exists>ep \<in> set ess. binary ep = binary imp)) primes"
  have su: "set ?u = {m \<in> set (minterms qm). \<not> (\<exists>imp \<in> set ess. covers imp m ?nv)}"
    by (simp add: set_uncovered)
  show "\<exists>c \<in> set (findMinimalCover qm ess primes). covers c m ?nv"
  proof (cases "?u = []")
    case True
    then have "\<exists>imp \<in> set ess. covers imp m ?nv" using su m by auto
    then show ?thesis using True by (simp add: findMinimalCover_def)
  next
    case False
    have pre: "\<forall>m \<in> set ?u. \<exists>p \<in> set ?r. covers p m ?nv"
    proof
      fix x assume x: "x \<in> set ?u"
      then have xm: "x \<in> set (minterms qm)" and nc: "\<not> (\<exists>imp \<in> set ess. covers imp x ?nv)"
        using su by auto
      from xm obtain p where p: "p \<in> set primes" "covers p x ?nv" using assms by blast
      have "\<not> (\<exists>ep \<in> set ess. binary ep = binary p)"
        using nc p(2) covers_binary by blast
      then show "\<exists>p \<in> set ?r. covers p x ?nv" using p by auto
    qed
    have res: "set (findMinimalCover qm ess primes) = set (greedyLoop qm ?u ?r ess)"
      using False by (simp add: findMinimalCover_def)
    note g = greedyLoop_covers[OF pre, of ess]
    show ?thesis
    proof (cases "m \<in> set ?u")
      case True
      then show ?thesis using g res by blast
    next
      case False
      then obtain e where "e \<in> set ess" "covers e m ?nv" using su m by auto
      then show ?thesis using g res by blast
    qed
  qed
qed

subsection \<open>The cover of a valid instance\<close>

lemma valid_terms: "valid qm \<Longrightarrow> \<forall>t \<in> set (allTerms qm). in_range (numVars qm) t"
  by (auto simp: valid_def set_allTerms in_range_def)

lemma valid_new:
  "valid (QuineMcCluskey_new nv m dc) =
     (1 \<le> nv \<and> nv \<le> 8 \<and> (\<forall>term \<in> set (m @ dc). 0 \<le> term \<and> term \<le> 2 ^ nat nv - 1))"
  by (simp add: valid_def QuineMcCluskey_new_def initializeVarNames_def)

lemma valid_varNames:
  "valid qm \<Longrightarrow> varNames qm = map (\<lambda>i. char_of (of_char (CHR ''A'') + i)) [0..<nat (numVars qm)]"
  by (metis (no_types, lifting) valid_def initializeVarNames_def QuineMcCluskey.select_convs(4)
      QuineMcCluskey.surjective QuineMcCluskey.update_convs(4))

lemma cover_wf:
  assumes "valid qm"
  shows "\<forall>c \<in> set (minimalCover qm). \<exists>d. wf_imp (numVars qm) (allTerms qm) d c"
proof
  fix c assume c: "c \<in> set (minimalCover qm)"
  let ?P = "findPrimeImplicants qm (allTerms qm)"
  have pw: "\<forall>p \<in> set ?P. \<exists>d. wf_imp (numVars qm) (allTerms qm) d p"
    by (rule primes_wf[OF valid_terms[OF assms]])
  have "c \<in> set (findEssentialPrimes qm ?P) \<union> set ?P"
    using c findMinimalCover_subset unfolding minimalCover_def by blast
  then show "\<exists>d. wf_imp (numVars qm) (allTerms qm) d c"
  proof
    assume "c \<in> set (findEssentialPrimes qm ?P)"
    then obtain p where "p \<in> set ?P" "c = p\<lparr>isEssential := True\<rparr>"
      using essential_from_primes by blast
    then show ?thesis using pw by auto
  next
    assume "c \<in> set ?P"
    then show ?thesis using pw by blast
  qed
qed

lemma cover_complete:
  assumes "valid qm"
  shows "\<forall>m \<in> set (minterms qm). \<exists>c \<in> set (minimalCover qm). covers c m (numVars qm)"
  unfolding minimalCover_def
proof (rule findMinimalCover_covers)
  show "\<forall>m \<in> set (minterms qm). \<exists>p \<in> set (findPrimeImplicants qm (allTerms qm)). covers p m (numVars qm)"
    using primes_complete[OF valid_terms[OF assms]] by (simp add: set_allTerms)
qed

lemma cover_exact:
  assumes "valid qm" "c \<in> set (minimalCover qm)" "in_range (numVars qm) t" "covers c t (numVars qm)"
  shows "t \<in> set (minterms qm) \<union> set (dontcares qm)"
proof -
  from cover_wf[OF assms(1)] assms(2) obtain d where "wf_imp (numVars qm) (allTerms qm) d c" by blast
  then have "t \<in> set (allTerms qm)" using assms(3,4) by (auto simp: wf_imp_def)
  then show ?thesis by (simp add: set_allTerms)
qed

lemma minimize_valid:
  assumes "valid qm"
  shows "minimize qm = (Inr (formatSOP qm (minimalCover qm)), qm)"
proof -
  have r: "0 \<le> t \<and> t \<le> 2 ^ nat (numVars qm) - 1"
    if "t \<in> set (minterms qm) \<union> set (dontcares qm)" for t
    using assms that unfolding valid_def by simp
  have "find (\<lambda>term. term < 0 \<or> term > 2 ^ nat (numVars qm) - 1) (minterms qm) = None"
    unfolding find_None_iff using r by fastforce
  moreover have "find (\<lambda>term. term < 0 \<or> term > 2 ^ nat (numVars qm) - 1) (dontcares qm) = None"
    unfolding find_None_iff using r by fastforce
  ultimately show ?thesis using assms by (simp add: minimize_def valid_def)
qed

lemma invalid_count_iff:
  "(fst (minimize qm) = Inl InvalidVariableCount) = (8 < numVars qm)"
  by (simp add: minimize_def Let_def split: option.splits)

lemma find_out_of_range:
  "(find P xs = None) = (\<forall>x \<in> set xs. \<not> P x)"
  by (auto simp: find_None_iff)

subsection \<open>Independence of the order that sorting gives to equal keys\<close>

text \<open>
  \<^verbatim>\<open>std::sort\<close> may order elements with equal keys in any way. In \<^verbatim>\<open>removeDuplicates\<close>
  the implicants with equal patterns are equal records, so whichever order the sort
  produces, \<^verbatim>\<open>std::unique\<close> leaves the same list (\<open>removeDuplicates_any_order\<close>). The cover
  handed to the final sort has pairwise distinct patterns, so its sorted order is unique
  (\<open>distinct_cover_before_sort\<close>, \<open>sort_key_unique\<close>).
\<close>

text \<open>
An implicant as the constructors leave it: minterms sorted and without repetition, flags as set.
\<close>

definition canon :: "Implicant \<Rightarrow> bool" where
  "canon imp = (sorted (iminterms imp) \<and> distinct (iminterms imp) \<and> isPrime imp \<and> \<not> isEssential imp)"

lemma canon_Implicant_term: "canon (Implicant_term t nv)"
  by (simp add: canon_def Implicant_term_def)

lemma matches_nth:
  "matches p tb \<Longrightarrow> i < length p \<Longrightarrow> p ! i \<noteq> CHR ''-'' \<Longrightarrow> p ! i = tb ! i"
  by (auto simp: matches_def list_all2_conv_all_nth)

lemma canon_Implicant_merge:
  assumes "wf_imp nv T d a" "wf_imp nv T d b" "canMerge a b" "canon a" "canon b"
    "\<forall>t \<in> set T. in_range nv t"
  shows "canon (Implicant_merge a b)"
proof -
  from wf_imp_merge_position[OF assms(1-3)] obtain p where p: "p < length (binary a)"
    "{binary a ! p, binary b ! p} = {CHR ''0'', CHR ''1''}" by blast
  then have np: "binary a ! p \<noteq> binary b ! p" "binary a ! p \<noteq> CHR ''-''" "binary b ! p \<noteq> CHR ''-''"
    by (auto simp: doubleton_eq_iff)
  have la: "length (binary a) = nat nv" and lb: "length (binary b) = nat nv"
    using assms(1,2) by (simp_all add: wf_imp_def)
  have disj: "set (iminterms a) \<inter> set (iminterms b) = {}"
  proof (rule ccontr)
    assume "set (iminterms a) \<inter> set (iminterms b) \<noteq> {}"
    then obtain t where t: "t \<in> set (iminterms a)" "t \<in> set (iminterms b)" by blast
    then have "t \<in> set T" using assms(1) by (auto simp: wf_imp_def)
    then have r: "in_range nv t" using assms(6) by blast
    have "covers a t nv" "covers b t nv" using t r assms(1,2) by (simp_all add: wf_imp_def)
    then have ma: "matches (binary a) (intToBinary t nv)" and mb: "matches (binary b) (intToBinary t nv)"
      using la lb by (simp_all add: covers_matches)
    have pb: "p < length (binary b)" using p(1) la lb by simp
    have "binary a ! p = intToBinary t nv ! p" by (rule matches_nth[OF ma p(1) np(2)])
    moreover have "binary b ! p = intToBinary t nv ! p" by (rule matches_nth[OF mb pb np(3)])
    ultimately show False using np(1) by simp
  qed
  have "distinct (iminterms a @ iminterms b)" using assms(4,5) disj by (simp add: canon_def)
  then show ?thesis by (simp add: canon_def Implicant_merge_def)
qed

definition good :: "int \<Rightarrow> int list \<Rightarrow> nat \<Rightarrow> Implicant \<Rightarrow> bool" where
  "good nv T d imp = (wf_imp nv T d imp \<and> canon imp)"

lemma good_mergeRound:
  assumes "\<forall>imp \<in> set (flat gs). good nv T d imp" "\<forall>t \<in> set T. in_range nv t"
  shows "\<forall>imp \<in> set (flat (newGroups (mergeRound gs))). good nv T (Suc d) imp"
proof
  fix imp assume "imp \<in> set (flat (newGroups (mergeRound gs)))"
  then have "merged_from (flat gs) imp"
    using round_inv_mergeRound[of gs] by (simp add: round_inv_def)
  then obtain a b where ab: "a \<in> set (flat gs)" "b \<in> set (flat gs)" "canMerge a b"
    "imp = Implicant_merge a b" by (auto simp: merged_from_def)
  then have "wf_imp nv T d a" "wf_imp nv T d b" "canon a" "canon b"
    using assms(1) by (auto simp: good_def)
  then show "good nv T (Suc d) imp"
    using ab(3,4) assms(2) wf_Implicant_merge canon_Implicant_merge unfolding good_def by blast
qed

lemma good_initialGroups:
  assumes "\<forall>t \<in> set T. in_range nv t"
  shows "\<forall>imp \<in> set (flat (initialGroups T nv)). good nv T 0 imp"
  using wf_initialGroups[OF assms] by (auto simp: good_def set_flat_initialGroups canon_Implicant_term)

lemma canon_isPrime: "canon x \<Longrightarrow> canon (x\<lparr>isPrime := True\<rparr>)"
  by (simp add: canon_def)

lemma primeLoop_good:
  assumes "\<forall>imp \<in> set (flat gs). good nv T d imp" "\<forall>p \<in> set primes. \<exists>d. good nv T d p"
    "\<forall>t \<in> set T. in_range nv t"
  shows "\<forall>p \<in> set (primeLoop gs primes). \<exists>d. good nv T d p"
  using assms
proof (induction gs primes arbitrary: d rule: primeLoop.induct)
  case (1 gs primes)
  let ?primes = "collectUnmarked gs (marked (mergeRound gs)) 0 primes"
  have c: "\<forall>p \<in> set ?primes. \<exists>d. good nv T d p"
  proof
    fix p assume "p \<in> set ?primes"
    then consider "p \<in> set primes" | i where "i < length (flat gs)" "p = (flat gs ! i)\<lparr>isPrime := True\<rparr>"
      by (auto simp: set_collectUnmarked)
    then show "\<exists>d. good nv T d p"
    proof cases
      case 1
      then show ?thesis using "1.prems"(2) by blast
    next
      case 2
      then have "good nv T d (flat gs ! i)" using "1.prems"(1) by simp
      then have "good nv T d p" using 2(2) by (simp add: good_def canon_isPrime)
      then show ?thesis by blast
    qed
  qed
  show ?case
  proof (cases "changed (mergeRound gs)")
    case True
    have "\<forall>p \<in> set (primeLoop (newGroups (mergeRound gs)) ?primes). \<exists>d. good nv T d p"
      using True good_mergeRound[OF "1.prems"(1,3)] c "1.prems"(3) by (rule 1(1))
    then show ?thesis using True by (subst primeLoop.simps) simp
  next
    case False
    then show ?thesis using c by (subst primeLoop.simps) simp
  qed
qed

lemma good_pattern_unique:
  assumes "good nv T d p" "good nv T e q" "binary p = binary q" "\<forall>t \<in> set T. in_range nv t"
  shows "p = q"
proof -
  have "set (iminterms p) = {t \<in> set T. covers p t nv}" "set (iminterms q) = {t \<in> set T. covers q t nv}"
    using assms(1,2,4) wf_imp_minterms unfolding good_def by blast+
  then have "set (iminterms p) = set (iminterms q)"
    using covers_binary[OF assms(3)] by simp
  then have "iminterms p = iminterms q"
    using assms(1,2) by (intro sorted_distinct_set_unique) (simp_all add: good_def canon_def)
  then show ?thesis using assms(1-3) by (simp add: good_def canon_def)
qed

lemma primes_pattern_unique:
  assumes "\<forall>t \<in> set T. in_range nv t"
    "p \<in> set (primeLoop (initialGroups T nv) [])" "q \<in> set (primeLoop (initialGroups T nv) [])"
    "binary p = binary q"
  shows "p = q"
proof -
  have "\<forall>p \<in> set (primeLoop (initialGroups T nv) []). \<exists>d. good nv T d p"
    by (rule primeLoop_good[OF good_initialGroups[OF assms(1)] _ assms(1)]) simp
  then obtain d e where "good nv T d p" "good nv T e q" using assms(2,3) by blast
  then show ?thesis using assms(4,1) good_pattern_unique by blast
qed

lemma map_unique_by: "map f (unique_by (\<lambda>a b. f a = f b) xs) = remdups_adj (map f xs)"
  by (induction "\<lambda>a b. f a = f b" xs rule: unique_by.induct) auto

lemma distinct_remdups_adj_sorted: "sorted xs \<Longrightarrow> distinct (remdups_adj xs)"
  by (induction xs rule: remdups_adj.induct) (auto)

lemma distinct_removeDuplicates: "distinct (map binary (removeDuplicates xs))"
  unfolding removeDuplicates_def map_unique_by
  by (rule distinct_remdups_adj_sorted) simp

lemma distinct_primes: "distinct (map binary (findPrimeImplicants qm T))"
  by (simp add: findPrimeImplicants_def distinct_removeDuplicates)

lemma distinct_essential: "distinct (map binary (findEssentialPrimes qm primes))"
  unfolding findEssentialPrimes_def
  by (rule fold_invariant) (auto simp: Let_def)

lemma distinct_erase_step:
  assumes "distinct (map f (c @ r))" "i < length r"
  shows "distinct (map f ((c @ [r ! i]) @ erase r i))"
proof -
  have "r = take i r @ r ! i # drop (Suc i) r" using assms(2) by (rule id_take_nth_drop)
  then have "distinct (map f (c @ take i r @ r ! i # drop (Suc i) r))" using assms(1) by simp
  then show ?thesis by (auto simp: erase_def)
qed

lemma distinct_greedyLoop:
  "distinct (map binary (c @ r)) \<Longrightarrow> distinct (map binary (greedyLoop qm u r c))"
proof (induction qm u r c rule: greedyLoop.induct)
  case (1 qm u r c)
  show ?case
  proof (cases "u \<noteq> [] \<and> r \<noteq> []")
    case False
    then have "greedyLoop qm u r c = c" by (simp add: greedyLoop_stop)
    then show ?thesis using 1(3) by simp
  next
    case True
    let ?bi = "nat (snd (findBest qm u r))"
    have range: "0 \<le> snd (findBest qm u r)" "?bi < length r"
      using True findBest_range[of r qm u] by auto
    have eq: "greedyLoop qm u r c =
              greedyLoop qm (filter (\<lambda>minterm. \<not> covers (r ! ?bi) minterm (numVars qm)) u)
                (erase r ?bi) (c @ [r ! ?bi])"
      using True by (intro greedyLoop_step) simp_all
    have "distinct (map binary ((c @ [r ! ?bi]) @ erase r ?bi))"
      using 1(3) range(2) by (rule distinct_erase_step)
    then show ?thesis unfolding eq using True range(1) by (intro 1(1))
  qed
qed

lemma distinct_cover_before_sort:
  "distinct (map binary
     (greedyLoop qm u
        (filter (\<lambda>imp. \<not> (\<exists>ep \<in> set (findEssentialPrimes qm (findPrimeImplicants qm T)).
                              binary ep = binary imp))
                (findPrimeImplicants qm T))
        (findEssentialPrimes qm (findPrimeImplicants qm T))))"
proof (rule distinct_greedyLoop)
  let ?P = "findPrimeImplicants qm T"
  let ?E = "findEssentialPrimes qm ?P"
  let ?R = "filter (\<lambda>imp. \<not> (\<exists>ep \<in> set ?E. binary ep = binary imp)) ?P"
  have "distinct (map binary ?R)" using distinct_primes by (rule distinct_map_filter)
  moreover have "binary ` set ?E \<inter> binary ` set ?R = {}" by auto
  ultimately show "distinct (map binary (?E @ ?R))" using distinct_essential by simp
qed

lemma sort_key_unique:
  assumes "distinct (map f xs)" "set ys = set xs" "length ys = length xs" "sorted (map f ys)"
  shows "ys = sort_key f xs"
proof -
  have inj: "inj_on f (set xs)" and dx: "distinct xs" using assms(1) by (simp_all add: distinct_map)
  have dy: "distinct ys" using assms(2,3) dx by (metis card_distinct distinct_card)
  have "map f ys = map f (sort_key f xs)"
  proof (rule sorted_distinct_set_unique)
    show "sorted (map f ys)" by (rule assms(4))
    show "distinct (map f ys)" using dy inj assms(2) by (simp add: distinct_map)
    show "sorted (map f (sort_key f xs))" by simp
    show "distinct (map f (sort_key f xs))" using assms(1) by (simp add: distinct_map)
    show "set (map f ys) = set (map f (sort_key f xs))" using assms(2) by simp
  qed
  moreover have "inj_on f (set ys \<union> set (sort_key f xs))" using inj assms(2) by simp
  ultimately show ?thesis by (simp add: inj_on_map_eq_map)
qed

lemma removeDuplicates_any_order:
  assumes "\<forall>t \<in> set T. in_range nv t" "xs = primeLoop (initialGroups T nv) []"
    "set ys = set xs" "sorted (map binary ys)"
  shows "unique_by (\<lambda>a b. binary a = binary b) ys = removeDuplicates xs"
proof -
  let ?u = "unique_by (\<lambda>a b. binary a = binary b)"
  have inj: "inj_on binary (set xs)"
    using primes_pattern_unique[OF assms(1)] unfolding assms(2) by (intro inj_onI) blast
  have "map binary (?u ys) = map binary (?u (sort_key binary xs))"
    unfolding map_unique_by
  proof (rule sorted_distinct_set_unique)
    show "sorted (remdups_adj (map binary ys))" using assms(4) by simp
    show "distinct (remdups_adj (map binary ys))" using assms(4) by (rule distinct_remdups_adj_sorted)
    show "sorted (remdups_adj (map binary (sort_key binary xs)))" by simp
    show "distinct (remdups_adj (map binary (sort_key binary xs)))"
      by (rule distinct_remdups_adj_sorted) simp
    show "set (remdups_adj (map binary ys)) = set (remdups_adj (map binary (sort_key binary xs)))"
      using assms(3) by simp
  qed
  moreover have "set (?u ys) \<union> set (?u (sort_key binary xs)) \<subseteq> set xs"
    using set_unique_by_subset[of _ ys] set_unique_by_subset[of _ "sort_key binary xs"] assms(3)
    by auto
  then have "inj_on binary (set (?u ys) \<union> set (?u (sort_key binary xs)))"
    using inj by (rule inj_on_subset[rotated])
  ultimately show ?thesis unfolding removeDuplicates_def by (simp add: inj_on_map_eq_map)
qed

subsection \<open>The formatter\<close>

lemma fold_append_concat:
  "fold (\<lambda>i acc. acc @ g i) xs acc = acc @ concat (map g xs)"
  by (induction xs arbitrary: acc) auto

lemma binaryToTerm_fold:
  "binaryToTerm qm bin =
     concat (map (\<lambda>i. if bin ! i = CHR ''0'' then [varNames qm ! i, CHR 0x27]
                       else if bin ! i = CHR ''1'' then [varNames qm ! i] else [])
                 [0..<length bin])"
proof -
  have "(\<lambda>i term. if bin ! i = CHR ''0'' then term @ [varNames qm ! i] @ [CHR 0x27]
             else if bin ! i = CHR ''1'' then term @ [varNames qm ! i]
             else term)
      = (\<lambda>i term. term @ (if bin ! i = CHR ''0'' then [varNames qm ! i, CHR 0x27]
                       else if bin ! i = CHR ''1'' then [varNames qm ! i] else []))"
    by (intro ext) simp
  then show ?thesis
    unfolding binaryToTerm_def by (simp add: fold_append_concat)
qed

lemma binaryToTerm_spec:
  assumes "valid qm" "length bin = nat (numVars qm)"
  shows "binaryToTerm qm bin = spec_product bin"
proof -
  have "varNames qm ! i = char_of (of_char (CHR ''A'') + i)" if "i < length bin" for i
    using that assms by (simp add: valid_varNames)
  then show ?thesis
    unfolding binaryToTerm_fold spec_product_def
    by (intro arg_cong[where f = concat] map_cong) (auto simp: spec_literal_def)
qed

lemma joinSOP_snoc:
  "xs \<noteq> [] \<Longrightarrow> joinSOP xs = concat (map (\<lambda>x. x @ '' + '') (butlast xs)) @ last xs"
  by (induction xs rule: joinSOP.induct) auto

lemma format_fold:
  assumes "\<forall>x \<in> set xs. x \<noteq> []"
  shows "fold (\<lambda>i result. if xs ! i \<noteq> [] then (result @ xs ! i) @ (if i < length xs - 1 then '' + '' else []) else result)
              [0..<length xs] [] = joinSOP xs"
proof (cases "xs = []")
  case True
  then show ?thesis by simp
next
  case False
  let ?g = "\<lambda>i. xs ! i @ (if i < length xs - 1 then '' + '' else [])"
  have "fold (\<lambda>i result. if xs ! i \<noteq> [] then (result @ xs ! i) @ (if i < length xs - 1 then '' + '' else []) else result)
              [0..<length xs] []
        = fold (\<lambda>i result. result @ ?g i) [0..<length xs] []"
    using assms by (intro fold_cong) auto
  also have "\<dots> = concat (map ?g [0..<length xs])" by (simp add: fold_append_concat)
  also have "\<dots> = concat (map (\<lambda>x. x @ '' + '') (butlast xs)) @ last xs"
  proof -
    obtain ys y where xs: "xs = ys @ [y]" using False by (metis rev_exhaust)
    have "map ?g [0..<length ys] = map (\<lambda>x. x @ '' + '') ys"
      by (intro nth_equalityI) (auto simp: xs nth_append)
    then show ?thesis by (simp add: xs nth_append)
  qed
  also have "\<dots> = joinSOP xs" using False by (simp add: joinSOP_snoc)
  finally show ?thesis .
qed

lemma spec_product_nonempty:
  assumes "\<not> all_dash bin"
  shows "spec_product bin \<noteq> []"
proof -
  from assms obtain i where i: "i < length bin" "bin ! i = CHR ''0'' \<or> bin ! i = CHR ''1''"
    by (auto simp: all_dash_def in_set_conv_nth)
  then have "spec_literal i (bin ! i) \<noteq> []" by (auto simp: spec_literal_def)
  moreover have "spec_literal i (bin ! i) \<in> set (map (\<lambda>i. spec_literal i (bin ! i)) [0..<length bin])"
    using i(1) by auto
  ultimately show ?thesis unfolding spec_product_def by (metis concat_eq_Nil_conv)
qed

lemma formatSOP_general:
  assumes "valid qm" "\<forall>c \<in> set cover. length (binary c) = nat (numVars qm)"
    "cover \<noteq> []" "\<forall>c \<in> set cover. \<not> all_dash (binary c)"
  shows "formatSOP qm cover = joinSOP (map (\<lambda>c. spec_product (binary c)) cover)"
proof -
  let ?xs = "map (\<lambda>c. spec_product (binary c)) cover"
  have ne: "\<forall>x \<in> set ?xs. x \<noteq> []" using assms(4) by (auto simp: spec_product_nonempty)
  have bt: "binaryToTerm qm (binary (cover ! i)) = ?xs ! i" if "i < length cover" for i
  proof -
    have "binaryToTerm qm (binary (cover ! i)) = spec_product (binary (cover ! i))"
      using that assms(1,2) by (intro binaryToTerm_spec) simp_all
    then show ?thesis using that by simp
  qed
  have "fold (\<lambda>i result.
                       if binaryToTerm qm (binary (cover ! i)) \<noteq> [] then
                         (result @ binaryToTerm qm (binary (cover ! i)))
                           @ (if i < length cover - 1 then '' + '' else [])
                       else result)
                    [0..<length cover] []
      = fold (\<lambda>i result. if ?xs ! i \<noteq> [] then (result @ ?xs ! i) @ (if i < length ?xs - 1 then '' + '' else []) else result)
              [0..<length ?xs] []"
  proof (rule fold_cong)
    fix i assume "i \<in> set [0..<length cover]"
    then have i: "i < length cover" by simp
    show "(\<lambda>result.
                       if binaryToTerm qm (binary (cover ! i)) \<noteq> [] then
                         (result @ binaryToTerm qm (binary (cover ! i)))
                           @ (if i < length cover - 1 then '' + '' else [])
                       else result)
       = (\<lambda>result. if ?xs ! i \<noteq> [] then (result @ ?xs ! i) @ (if i < length ?xs - 1 then '' + '' else []) else result)"
      unfolding bt[OF i] by simp
  qed simp_all
  also have "\<dots> = joinSOP ?xs" by (rule format_fold[OF ne])
  finally have f: "fold (\<lambda>i result.
                       if binaryToTerm qm (binary (cover ! i)) \<noteq> [] then
                         (result @ binaryToTerm qm (binary (cover ! i)))
                           @ (if i < length cover - 1 then '' + '' else [])
                       else result)
                    [0..<length cover] [] = joinSOP ?xs" .
  have "joinSOP ?xs \<noteq> []"
  proof -
    obtain c cs where "cover = c # cs" using assms(3) by (cases cover) auto
    then show ?thesis using ne by (cases cs) auto
  qed
  then show ?thesis
    using assms(3,4) unfolding formatSOP_def f Let_def by (auto simp: all_dash_def)
qed

lemma formatSOP_all_dash:
  assumes "\<exists>imp \<in> set cover. set (binary imp) \<subseteq> {CHR ''-''}"
  shows "formatSOP qm cover = ''1''"
proof -
  from assms obtain imp where imp: "imp \<in> set cover" "set (binary imp) \<subseteq> {CHR ''-''}" by blast
  then have "CHR ''0'' \<notin> set (binary imp) \<and> CHR ''1'' \<notin> set (binary imp)" by auto
  then have "\<exists>imp \<in> set cover. CHR ''0'' \<notin> set (binary imp) \<and> CHR ''1'' \<notin> set (binary imp)"
    using imp(1) by blast
  moreover have "cover \<noteq> []" using imp(1) by auto
  ultimately show ?thesis unfolding formatSOP_def by simp
qed

subsection \<open>Reading the formatted text back\<close>

text \<open>
The evaluator on the truth tables of a few texts.
\<close>

lemma evalSOP_examples:
  "map (evalSOP 3 ''BC + AC + AB'') [0, 1, 2, 3, 4, 5, 6, 7]
     = [False, False, False, True, False, True, True, True]"
  "map (evalSOP 2 [CHR ''A'', CHR 0x27, CHR '' '', CHR ''+'', CHR '' '', CHR ''B'', CHR 0x27]) [0, 1, 2, 3]
     = [True, True, True, False]"
  "map (evalSOP 3 [CHR ''C'', CHR 0x27]) [0, 1, 2, 3, 4, 5, 6, 7]
     = [True, False, True, False, True, False, True, False]"
  "map (evalSOP 2 ''0'') [0, 1, 2, 3] = [False, False, False, False]"
  "map (evalSOP 2 ''1'') [0, 1, 2, 3] = [True, True, True, True]"
  "splitSum ''BC + AC + AB'' = [''BC'', ''AC'', ''AB'']"
  by code_simp+

lemma splitSum_nospace: "CHR '' '' \<notin> set p \<Longrightarrow> splitSum p = [p]"
  by (induction p) auto

lemma splitSum_append:
  "CHR '' '' \<notin> set p \<Longrightarrow> splitSum (p @ '' + '' @ rest) = p # splitSum rest"
  by (induction p) auto

lemma splitSum_joinSOP:
  "ps \<noteq> [] \<Longrightarrow> \<forall>p \<in> set ps. CHR '' '' \<notin> set p \<Longrightarrow> splitSum (joinSOP ps) = ps"
proof (induction ps rule: joinSOP.induct)
  case 1
  then show ?case by simp
next
  case (2 x)
  then show ?case by (simp add: splitSum_nospace)
next
  case (3 x y ys)
  have "splitSum (joinSOP (x # y # ys)) = splitSum (x @ '' + '' @ joinSOP (y # ys))" by simp
  also have "\<dots> = x # splitSum (joinSOP (y # ys))" using 3(3) by (intro splitSum_append) simp
  also have "\<dots> = x # y # ys" using 3 by simp
  finally show ?case .
qed

lemma letter_code: "i < 8 \<Longrightarrow> (of_char (char_of (of_char (CHR ''A'') + i :: nat)) :: nat) = 65 + i"
  by simp

lemma letter_neq:
  assumes "i < 8" "(of_char c :: nat) < 65"
  shows "char_of (of_char (CHR ''A'') + i :: nat) \<noteq> c"
proof
  assume "char_of (of_char (CHR ''A'') + i :: nat) = c"
  then have "(of_char (char_of (of_char (CHR ''A'') + i :: nat)) :: nat) = of_char c" by simp
  then show False using letter_code[OF assms(1)] assms(2) by simp
qed

lemma letter_neq_simps:
  assumes "i < 8"
  shows "char_of (of_char (CHR ''A'') + i :: nat) \<noteq> CHR '' ''"
    "char_of (of_char (CHR ''A'') + i :: nat) \<noteq> CHR 0x27"
    "char_of (of_char (CHR ''A'') + i :: nat) \<noteq> CHR ''0''"
    "char_of (of_char (CHR ''A'') + i :: nat) \<noteq> CHR ''1''"
  by (rule letter_neq[OF assms], simp)+

lemma varValue_letter:
  assumes "i < nat nv" "nv \<le> 8"
  shows "varValue nv t (char_of (of_char (CHR ''A'') + i :: nat)) = (intToBinary t nv ! i = CHR ''1'')"
proof -
  have "i < 8" using assms by simp
  from letter_code[OF this] show ?thesis using assms(1) by (simp add: varValue_def)
qed

lemma evalProduct_plain:
  "rest = [] \<or> hd rest \<noteq> CHR 0x27 \<Longrightarrow>
   evalProduct nv t (v # rest) = (varValue nv t v \<and> evalProduct nv t rest)"
  by (cases rest) auto

text \<open>
The literals of the positions from \<open>k\<close> up to \<open>n\<close>.
\<close>

definition lits :: "string \<Rightarrow> nat \<Rightarrow> nat \<Rightarrow> string" where
  "lits bin k n = concat (map (\<lambda>i. spec_literal i (bin ! i)) [k..<n])"

lemma lits_step: "k < n \<Longrightarrow> lits bin k n = spec_literal k (bin ! k) @ lits bin (Suc k) n"
  by (simp add: lits_def upt_conv_Cons)

lemma lits_end: "n \<le> k \<Longrightarrow> lits bin k n = []"
  by (simp add: lits_def)

lemma lits_hd: "n \<le> 8 \<Longrightarrow> lits bin k n = [] \<or> hd (lits bin k n) \<noteq> CHR 0x27"
proof (induction "n - k" arbitrary: k)
  case 0
  then show ?case by (simp add: lits_end)
next
  case (Suc d)
  then have k: "k < n" "k < 8" by auto
  have ih: "lits bin (Suc k) n = [] \<or> hd (lits bin (Suc k) n) \<noteq> CHR 0x27"
    using Suc by (intro Suc(1)) auto
  show ?case
    using ih letter_neq_simps(2)[OF k(2)]
    by (auto simp: lits_step[OF k(1)] spec_literal_def)
qed

lemma lits_nochar:
  assumes "n \<le> 8" "(of_char c :: nat) < 65" "c \<noteq> CHR 0x27"
  shows "c \<notin> set (lits bin k n)"
proof -
  have "c \<notin> set (spec_literal i (bin ! i))" if "i < n" for i
    using letter_neq[of i c] that assms by (auto simp: spec_literal_def)
  then show ?thesis by (auto simp: lits_def)
qed

lemma evalProduct_lits:
  assumes "n = nat nv" "nv \<le> 8" "length bin = n" "set bin \<subseteq> {CHR ''0'', CHR ''1'', CHR ''-''}"
  shows "evalProduct nv t (lits bin k n)
         = (\<forall>i. k \<le> i \<and> i < n \<longrightarrow> bin ! i = CHR ''-'' \<or> bin ! i = intToBinary t nv ! i)"
proof (induction "n - k" arbitrary: k)
  case 0
  then have "n \<le> k" by simp
  then show ?case by (auto simp: lits_end)
next
  case (Suc d)
  then have k: "k < n" by auto
  have n8: "n \<le> 8" using assms by simp
  have ih: "evalProduct nv t (lits bin (Suc k) n)
         = (\<forall>i. Suc k \<le> i \<and> i < n \<longrightarrow> bin ! i = CHR ''-'' \<or> bin ! i = intToBinary t nv ! i)"
    using Suc by (intro Suc(1)) auto
  have split: "(\<forall>i. k \<le> i \<and> i < n \<longrightarrow> P i) = (P k \<and> (\<forall>i. Suc k \<le> i \<and> i < n \<longrightarrow> P i))" for P
    using k by (metis Suc_leD Suc_leI le_neq_implies_less order_refl)
  have tb: "intToBinary t nv ! k = CHR ''0'' \<or> intToBinary t nv ! k = CHR ''1''"
    using k assms(1) by (simp add: intToBinary_nth)
  have bk: "bin ! k \<in> {CHR ''0'', CHR ''1'', CHR ''-''}" using k assms(3,4) by (metis nth_mem subsetD)
  have vv: "varValue nv t (char_of (of_char (CHR ''A'') + k :: nat)) = (intToBinary t nv ! k = CHR ''1'')"
    using k assms(1,2) by (intro varValue_letter) simp_all
  have hd: "lits bin (Suc k) n = [] \<or> hd (lits bin (Suc k) n) \<noteq> CHR 0x27" by (rule lits_hd[OF n8])
  let ?L = "char_of (of_char (CHR ''A'') + k :: nat)"
  let ?rest = "lits bin (Suc k) n"
  from bk consider "bin ! k = CHR ''-''" | "bin ! k = CHR ''1''" | "bin ! k = CHR ''0''" by auto
  then have "evalProduct nv t (spec_literal k (bin ! k) @ ?rest)
        = ((bin ! k = CHR ''-'' \<or> bin ! k = intToBinary t nv ! k) \<and> evalProduct nv t ?rest)"
  proof cases
    case 1
    then show ?thesis by (simp add: spec_literal_def)
  next
    case 2
    then have e1: "spec_literal k (bin ! k) @ ?rest = ?L # ?rest" by (simp add: spec_literal_def)
    have e2: "evalProduct nv t (?L # ?rest) = (varValue nv t ?L \<and> evalProduct nv t ?rest)"
      by (rule evalProduct_plain[OF hd])
    have e3: "varValue nv t ?L = (bin ! k = CHR ''-'' \<or> bin ! k = intToBinary t nv ! k)"
      unfolding vv 2 by auto
    show ?thesis unfolding e1 e2 e3 by (rule refl)
  next
    case 3
    then have e1: "spec_literal k (bin ! k) @ ?rest = ?L # CHR 0x27 # ?rest" by (simp add: spec_literal_def)
    have e2: "evalProduct nv t (?L # CHR 0x27 # ?rest) = (\<not> varValue nv t ?L \<and> evalProduct nv t ?rest)"
      by (simp only: evalProduct.simps simp_thms if_True)
    have e3: "(\<not> varValue nv t ?L) = (bin ! k = CHR ''-'' \<or> bin ! k = intToBinary t nv ! k)"
      unfolding vv 3 using tb by auto
    show ?thesis unfolding e1 e2 e3 by (rule refl)
  qed
  then show ?case unfolding lits_step[OF k] split[of "\<lambda>i. bin ! i = CHR ''-'' \<or> bin ! i = intToBinary t nv ! i"] ih by simp
qed

lemma spec_product_lits: "spec_product bin = lits bin 0 (length bin)"
  by (simp add: spec_product_def lits_def)

lemma evalProduct_spec_product:
  assumes "length bin = nat nv" "nv \<le> 8" "set bin \<subseteq> {CHR ''0'', CHR ''1'', CHR ''-''}"
  shows "evalProduct nv t (spec_product bin) = matches bin (intToBinary t nv)"
  unfolding spec_product_lits
  using evalProduct_lits[of "length bin" nv bin t 0] assms
  by (simp add: matches_def list_all2_conv_all_nth)

lemma spec_product_nochar:
  assumes "length bin \<le> 8" "(of_char c :: nat) < 65" "c \<noteq> CHR 0x27"
  shows "c \<notin> set (spec_product bin)"
  unfolding spec_product_lits using assms by (rule lits_nochar)

lemma joinSOP_hd:
  "ps \<noteq> [] \<Longrightarrow> hd ps \<noteq> [] \<Longrightarrow> joinSOP ps \<noteq> [] \<and> hd (joinSOP ps) = hd (hd ps)"
  by (induction ps rule: joinSOP.induct) auto

lemma all_dash_matches:
  assumes "all_dash bin" "set bin \<subseteq> {CHR ''0'', CHR ''1'', CHR ''-''}" "length bin = length tb"
  shows "matches bin tb"
proof -
  have "bin ! i = CHR ''-''" if "i < length bin" for i
  proof -
    have "bin ! i \<in> set bin" using that by simp
    then show ?thesis using assms(1,2) by (auto simp: all_dash_def)
  qed
  then show ?thesis using assms(3) by (simp add: matches_def list_all2_conv_all_nth)
qed

lemma eval_format:
  assumes "valid qm" "\<forall>c \<in> set cover. \<exists>d. wf_imp (numVars qm) T d c"
  shows "evalSOP (numVars qm) (formatSOP qm cover) t = (\<exists>c \<in> set cover. covers c t (numVars qm))"
proof -
  let ?nv = "numVars qm"
  have nv8: "?nv \<le> 8" using assms(1) by (simp add: valid_def)
  have len: "\<forall>c \<in> set cover. length (binary c) = nat ?nv"
    and chars: "\<forall>c \<in> set cover. set (binary c) \<subseteq> {CHR ''0'', CHR ''1'', CHR ''-''}"
    using assms(2) by (auto simp: wf_imp_def)
  consider "cover = []" | "cover \<noteq> []" "\<exists>c \<in> set cover. all_dash (binary c)"
    | "cover \<noteq> []" "\<forall>c \<in> set cover. \<not> all_dash (binary c)" by blast
  then show ?thesis
  proof cases
    case 1
    then show ?thesis by (simp add: formatSOP_def evalSOP_def)
  next
    case 2
    then obtain c where c: "c \<in> set cover" "all_dash (binary c)" by blast
    then have "matches (binary c) (intToBinary t ?nv)"
      using chars len by (intro all_dash_matches) auto
    then have "covers c t ?nv" using c(1) len by (simp add: covers_matches)
    moreover have "formatSOP qm cover = ''1''"
      using 2 by (auto simp: formatSOP_def all_dash_def)
    ultimately show ?thesis using c(1) by (auto simp: evalSOP_def)
  next
    case 3
    let ?ps = "map (\<lambda>c. spec_product (binary c)) cover"
    have f: "formatSOP qm cover = joinSOP ?ps"
      using assms(1) len 3 by (rule formatSOP_general)
    have l8: "\<forall>c \<in> set cover. length (binary c) \<le> 8" using len nv8 by auto
    have "CHR '' '' \<notin> set (spec_product (binary c))" if "c \<in> set cover" for c
      using l8 that by (intro spec_product_nochar) auto
    then have nosp: "\<forall>p \<in> set ?ps. CHR '' '' \<notin> set p" by auto
    have ne: "?ps \<noteq> []" using 3(1) by simp
    have hne: "hd ?ps \<noteq> []"
      using 3 by (cases cover) (auto simp: spec_product_nonempty)
    have hd: "joinSOP ?ps \<noteq> []" "hd (joinSOP ?ps) = hd (hd ?ps)"
      using joinSOP_hd[OF ne hne] by auto
    have hin: "hd (hd ?ps) \<in> set (hd ?ps)" using hne by simp
    have "hd ?ps \<in> set ?ps" using ne by (intro hd_in_set)
    then obtain c0 where c0: "c0 \<in> set cover" "hd ?ps = spec_product (binary c0)" by auto
    have n0: "joinSOP ?ps \<noteq> ''0''"
    proof
      assume "joinSOP ?ps = ''0''"
      then have "hd (hd ?ps) = CHR ''0''" using hd(2) by simp
      then have "CHR ''0'' \<in> set (spec_product (binary c0))" using hin c0(2) by simp
      moreover have "CHR ''0'' \<notin> set (spec_product (binary c0))"
        using l8 c0(1) by (intro spec_product_nochar) auto
      ultimately show False by blast
    qed
    have n1: "joinSOP ?ps \<noteq> ''1''"
    proof
      assume "joinSOP ?ps = ''1''"
      then have "hd (hd ?ps) = CHR ''1''" using hd(2) by simp
      then have "CHR ''1'' \<in> set (spec_product (binary c0))" using hin c0(2) by simp
      moreover have "CHR ''1'' \<notin> set (spec_product (binary c0))"
        using l8 c0(1) by (intro spec_product_nochar) auto
      ultimately show False by blast
    qed
    have "evalSOP ?nv (formatSOP qm cover) t = (\<exists>p \<in> set ?ps. evalProduct ?nv t p)"
      unfolding f evalSOP_def using n0 n1 splitSum_joinSOP[OF ne nosp] by simp
    also have "\<dots> = (\<exists>c \<in> set cover. evalProduct ?nv t (spec_product (binary c)))" by auto
    also have "\<dots> = (\<exists>c \<in> set cover. matches (binary c) (intToBinary t ?nv))"
      using len chars nv8 by (intro bex_cong refl evalProduct_spec_product) auto
    also have "\<dots> = (\<exists>c \<in> set cover. covers c t ?nv)"
      using len by (intro bex_cong refl) (simp add: covers_matches)
    finally show ?thesis .
  qed
qed

subsection \<open>Every conforming sort gives the same outcome\<close>

text \<open>
A sort outcome keeps the elements and the length, and the stable sort is one.
\<close>

lemma sort_outcome_set: "sort_outcome f xs ys \<Longrightarrow> set ys = set xs"
  unfolding sort_outcome_def by (metis count_list_0_iff subsetI subset_antisym)

lemma sort_outcome_length:
  assumes "sort_outcome f xs ys"
  shows "length ys = length xs"
proof -
  have s: "set ys = set xs" using assms by (rule sort_outcome_set)
  have "length ys = sum (count_list ys) (set xs)" using s by (simp add: sum_count_set)
  also have "\<dots> = sum (count_list xs) (set xs)" using assms by (simp add: sort_outcome_def)
  also have "\<dots> = length xs" by (simp add: sum_count_set)
  finally show ?thesis .
qed

lemma count_list_sort_key: "count_list (sort_key f xs) x = count_list xs x"
  by (simp add: count_list_eq_length_filter filter_sort)

lemma sort_outcome_sort_key: "sort_outcome f xs (sort_key f xs)"
  by (simp add: sort_outcome_def count_list_sort_key)

text \<open>
On a linear order with the elements themselves as keys, the outcome is unique.
\<close>

lemma sorted_same_counts:
  fixes ys zs :: "'a::linorder list"
  assumes "sorted ys" "sorted zs" "\<forall>x. count_list ys x = count_list zs x"
  shows "ys = zs"
  using assms
proof (induction ys arbitrary: zs)
  case Nil
  then have "\<forall>x. count_list zs x = 0" by simp
  then have "set zs = {}" by (simp add: count_list_0_iff)
  then show ?case by simp
next
  case (Cons y ys)
  have "count_list zs y \<noteq> 0" using Cons.prems(3)[rule_format, of y, symmetric] by simp
  then have "y \<in> set zs" by (simp add: count_list_0_iff)
  then obtain z zs' where zs: "zs = z # zs'" by (cases zs) auto
  have "count_list (y # ys) z \<noteq> 0" using Cons.prems(3)[rule_format, of z] zs by simp
  then have "z \<in> set (y # ys)" by (simp only: count_list_0_iff) simp
  then have "y \<le> z" using Cons.prems(1) by auto
  moreover have "z \<le> y" using \<open>y \<in> set zs\<close> Cons.prems(2) zs by auto
  ultimately have yz: "y = z" by simp
  have "\<forall>x. count_list ys x = count_list zs' x"
    using Cons.prems(3) zs yz by (auto split: if_splits)
  then have "ys = zs'" using Cons.prems(1,2) zs by (intro Cons.IH) auto
  then show ?case using zs yz by simp
qed

lemma sort_outcome_ints:
  fixes xs :: "'a::linorder list"
  assumes "sort_outcome (\<lambda>x. x) xs ys"
  shows "ys = sort xs"
proof (rule sorted_same_counts)
  show "sorted ys" using assms by (simp add: sort_outcome_def)
  show "sorted (sort xs)" by simp
  show "\<forall>x. count_list ys x = count_list (sort xs) x"
    using assms by (simp add: sort_outcome_def count_list_sort_key)
qed

text \<open>
Each stage has the result of the function as an outcome, and no other.
\<close>

lemma allTerms_any_unique: "allTerms_any qm terms \<Longrightarrow> terms = allTerms qm"
  by (auto simp: allTerms_any_def allTerms_def dest: sort_outcome_ints)

lemma allTerms_any_ex: "allTerms_any qm (allTerms qm)"
  unfolding allTerms_any_def allTerms_def using sort_outcome_sort_key by blast

lemma findPrimeImplicants_any_unique:
  assumes "\<forall>t \<in> set T. in_range (numVars qm) t" "findPrimeImplicants_any qm T primes"
  shows "primes = findPrimeImplicants qm T"
proof (cases "T = []")
  case True
  then show ?thesis using assms(2) by (simp add: findPrimeImplicants_any_def findPrimeImplicants_def)
next
  case False
  let ?xs = "primeLoop (initialGroups T (numVars qm)) []"
  from assms(2) False obtain ys where ys: "sort_outcome binary ?xs ys"
    "primes = unique_by (\<lambda>a b. binary a = binary b) ys"
    by (auto simp: findPrimeImplicants_any_def removeDuplicates_any_def)
  have "unique_by (\<lambda>a b. binary a = binary b) ys = removeDuplicates ?xs"
    using assms(1) refl sort_outcome_set[OF ys(1)]
  proof (rule removeDuplicates_any_order)
    show "sorted (map binary ys)" using ys(1) by (simp add: sort_outcome_def)
  qed
  then show ?thesis using ys(2) False by (simp add: findPrimeImplicants_def)
qed

lemma findPrimeImplicants_any_ex: "findPrimeImplicants_any qm T (findPrimeImplicants qm T)"
  unfolding findPrimeImplicants_any_def findPrimeImplicants_def removeDuplicates_any_def
    removeDuplicates_def
  using sort_outcome_sort_key by auto

lemma findMinimalCover_any_unique:
  assumes "findMinimalCover_any qm (findEssentialPrimes qm (findPrimeImplicants qm T))
             (findPrimeImplicants qm T) cover"
  shows "cover = findMinimalCover qm (findEssentialPrimes qm (findPrimeImplicants qm T))
                   (findPrimeImplicants qm T)"
proof -
  let ?P = "findPrimeImplicants qm T"
  let ?E = "findEssentialPrimes qm ?P"
  let ?u = "fold (\<lambda>minterm uncovered.
                    if \<exists>imp \<in> set ?E. covers imp minterm (numVars qm)
                    then uncovered else insort_insert minterm uncovered)
                 (minterms qm) []"
  let ?xs = "greedyLoop qm ?u (filter (\<lambda>imp. \<not> (\<exists>ep \<in> set ?E. binary ep = binary imp)) ?P) ?E"
  show ?thesis
  proof (cases "?u = []")
    case True
    then show ?thesis using assms by (simp add: findMinimalCover_any_def findMinimalCover_def)
  next
    case False
    then have so: "sort_outcome binary ?xs cover"
      using assms by (simp add: findMinimalCover_any_def)
    have "cover = sort_key binary ?xs"
      using distinct_cover_before_sort sort_outcome_set[OF so] sort_outcome_length[OF so]
    proof (rule sort_key_unique)
      show "sorted (map binary cover)" using so by (simp add: sort_outcome_def)
    qed
    then show ?thesis using False by (simp add: findMinimalCover_def)
  qed
qed

lemma findMinimalCover_any_ex:
  "findMinimalCover_any qm ess primes (findMinimalCover qm ess primes)"
  unfolding findMinimalCover_any_def findMinimalCover_def Let_def
  using sort_outcome_sort_key by auto

lemma snd_minimize: "snd (minimize qm) = qm"
  by (simp add: minimize_def Let_def split: option.splits)

lemma find_range_None:
  assumes "find (\<lambda>term. term < 0 \<or> term > 2 ^ nat nv - 1) xs = None" "t \<in> set xs"
  shows "in_range nv t"
  using assms unfolding find_None_iff in_range_def by fastforce

lemma minimize_any_minimize:
  assumes "0 \<le> numVars qm"
  shows "minimize_any qm (minimize qm)"
proof -
  have "\<exists>terms primes cover.
          allTerms_any qm terms \<and> findPrimeImplicants_any qm terms primes \<and>
          findMinimalCover_any qm (findEssentialPrimes qm primes) primes cover \<and>
          (Inr (formatSOP qm (minimalCover qm)) :: error + string, qm) = (Inr (formatSOP qm cover), qm)"
    unfolding minimalCover_def
    using allTerms_any_ex findPrimeImplicants_any_ex findMinimalCover_any_ex by blast
  then show ?thesis
    using assms by (simp add: minimize_any_def minimize_def Let_def split: option.splits)
qed

lemma minimize_any_unique:
  assumes "0 \<le> numVars qm" "minimize_any qm outcome"
  shows "outcome = minimize qm"
proof (cases "numVars qm > 8")
  case True
  then show ?thesis using assms(2) by (simp add: minimize_any_def minimize_def)
next
  case nv: False
  let ?bad = "\<lambda>term. term < 0 \<or> term > 2 ^ nat (numVars qm) - 1"
  show ?thesis
  proof (cases "find ?bad (minterms qm)")
    case (Some t)
    then show ?thesis using assms nv by (simp add: minimize_any_def minimize_def Let_def)
  next
    case m: None
    show ?thesis
    proof (cases "find ?bad (dontcares qm)")
      case (Some t)
      then show ?thesis using assms nv m by (simp add: minimize_any_def minimize_def Let_def)
    next
      case d: None
      from assms nv m d obtain terms primes cover where
        t: "allTerms_any qm terms" and
        p: "findPrimeImplicants_any qm terms primes" and
        c: "findMinimalCover_any qm (findEssentialPrimes qm primes) primes cover" and
        out: "outcome = (Inr (formatSOP qm cover), qm)"
        by (auto simp: minimize_any_def Let_def)
      have terms: "terms = allTerms qm" using t by (rule allTerms_any_unique)
      have range: "\<forall>t \<in> set (allTerms qm). in_range (numVars qm) t"
        unfolding set_allTerms using find_range_None[OF m] find_range_None[OF d] by blast
      have primes: "primes = findPrimeImplicants qm (allTerms qm)"
        using range p unfolding terms by (rule findPrimeImplicants_any_unique)
      have "cover = minimalCover qm"
        unfolding minimalCover_def using c unfolding primes by (rule findMinimalCover_any_unique)
      then show ?thesis using out assms nv m d by (simp add: minimize_def Let_def)
    qed
  qed
qed

subsection \<open>The number of rounds of a run that completes\<close>

text \<open>
  Each merging round adds a dash to patterns of length \<open>numVars\<close>, and one last round merges
  nothing: at most \<open>numVars + 1\<close> rounds, and with two variables and the minterms
  \<open>{0, 1, 2, 3}\<close> exactly three.
\<close>

lemma primeRounds_bound:
  assumes "valid qm"
  shows "primeRounds qm (allTerms qm) \<le> nat (numVars qm) + 1"
proof -
  have "loopRounds (initialGroups (allTerms qm) (numVars qm)) + 0 \<le> nat (numVars qm) + 1"
    by (rule loopRounds_bound[OF wf_initialGroups[OF valid_terms[OF assms]]]) simp
  then show ?thesis by (simp add: primeRounds_def)
qed

lemma primeRounds_two_variables:
  "primeRounds (QuineMcCluskey_new 2 [0, 1, 2, 3] []) (allTerms (QuineMcCluskey_new 2 [0, 1, 2, 3] [])) = 3"
  by code_simp

subsection \<open>Copies of a pattern across the merge rounds\<close>

text \<open>
  The merge phase appends one implicant for every accepted pair and removes repeated
  patterns only after its last round. The number of implicants of the rounds for three
  variables and all eight terms:
\<close>

lemma round_sizes_three_variables:
  "map (\<lambda>k. totalSize (roundGroups (allTerms (QuineMcCluskey_new 3 [0..7] [])) 3 k)) [1, 2, 3, 4, 5]
   = [8, 12, 12, 12, 0]"
  by code_simp

text \<open>
What one pair, one pair of groups and one round add to the copies of a pattern.
\<close>

lemma cnt_simps [simp]:
  "cnt [] p = 0" "cnt (x # xs) p = (if binary x = p then Suc (cnt xs p) else cnt xs p)"
  "cnt (xs @ ys) p = cnt xs p + cnt ys p"
  by (simp_all add: cnt_def)

lemma countOnes_ones: "countOnes x = ones (binary x)"
  by (simp add: countOnes_def ones_def)

lemma cnt_push_group:
  "cnt (flat (push_group k imp gs)) p = cnt (flat gs) p + (if binary imp = p then 1 else 0)"
  by (induction gs) auto

lemma keys_push_group:
  "set (map fst (push_group k imp gs)) = insert k (set (map fst gs))"
proof (induction gs)
  case Nil
  then show ?case by simp
next
  case (Cons e gs)
  obtain a b where e: "e = (a, b)" by (cases e)
  show ?case using Cons unfolding e by (cases "k = a"; cases "k < a") auto
qed

lemma grouped_push_group:
  "grouped gs \<Longrightarrow> grouped (push_group (countOnes imp) imp gs)"
proof (induction gs)
  case Nil
  then show ?case by (simp add: grouped_def)
next
  case (Cons e gs)
  obtain k v where e: "e = (k, v)" by (cases e)
  have g: "grouped gs" using Cons.prems by (auto simp: grouped_def)
  have keys: "fst ` set (push_group (countOnes imp) imp gs) = insert (countOnes imp) (fst ` set gs)"
    using keys_push_group[of "countOnes imp" imp gs] by simp
  show ?case
  proof (cases "countOnes imp = k")
    case True
    then show ?thesis using Cons.prems by (auto simp: e grouped_def)
  next
    case False
    show ?thesis
    proof (cases "countOnes imp < k")
      case True
      then show ?thesis using Cons.prems False by (auto simp: e grouped_def)
    next
      case ge: False
      have "grouped (push_group (countOnes imp) imp gs)" using Cons.IH g by simp
      moreover have "\<forall>k' \<in> fst ` set (push_group (countOnes imp) imp gs). k < k'"
        unfolding keys using Cons.prems False ge by (auto simp: e grouped_def)
      ultimately show ?thesis using Cons.prems False ge by (auto simp: e grouped_def)
    qed
  qed
qed

lemma cnt_mergePair:
  "cnt (flat (newGroups (mergePair g1 g2 mi j k st))) p
   = cnt (flat (newGroups st)) p + (if accepted g1 g2 p j k then 1 else 0)"
  by (auto simp: mergePair_def accepted_def cnt_push_group)

lemma grouped_mergePair:
  "grouped (newGroups st) \<Longrightarrow> grouped (newGroups (mergePair g1 g2 mi j k st))"
  by (simp add: mergePair_def grouped_push_group)

lemma cnt_inner:
  "cnt (flat (newGroups (fold (\<lambda>k. mergePair g1 g2 mi j k) [0..<m] st))) p
   = cnt (flat (newGroups st)) p + card {k. k < m \<and> accepted g1 g2 p j k}"
proof (induction m)
  case 0
  then show ?case by simp
next
  case (Suc m)
  have "{k. k < Suc m \<and> accepted g1 g2 p j k}
        = {k. k < m \<and> accepted g1 g2 p j k} \<union> (if accepted g1 g2 p j m then {m} else {})"
    by (auto simp: less_Suc_eq)
  then have "card {k. k < Suc m \<and> accepted g1 g2 p j k}
        = card {k. k < m \<and> accepted g1 g2 p j k} + (if accepted g1 g2 p j m then 1 else 0)"
    by simp
  then show ?case using Suc by (simp add: cnt_mergePair)
qed

lemma cnt_mergeGroups_aux:
  "cnt (flat (newGroups (fold (\<lambda>j. fold (\<lambda>k. mergePair g1 g2 mi j k) [0..<m]) [0..<n] st))) p
   = cnt (flat (newGroups st)) p + card {(j, k). j < n \<and> k < m \<and> accepted g1 g2 p j k}"
proof (induction n)
  case 0
  then show ?case by simp
next
  case (Suc n)
  let ?A = "{(j, k). j < n \<and> k < m \<and> accepted g1 g2 p j k}"
  let ?B = "Pair n ` {k. k < m \<and> accepted g1 g2 p n k}"
  have fin: "finite ?A"
    by (rule finite_subset[of _ "{..<n} \<times> {..<m}"]) auto
  have "{(j, k). j < Suc n \<and> k < m \<and> accepted g1 g2 p j k} = ?A \<union> ?B"
    by (auto simp: less_Suc_eq)
  moreover have "?A \<inter> ?B = {}" by auto
  moreover have "card ?B = card {k. k < m \<and> accepted g1 g2 p n k}"
    by (rule card_image) (simp add: inj_on_def)
  ultimately have "card {(j, k). j < Suc n \<and> k < m \<and> accepted g1 g2 p j k}
      = card ?A + card {k. k < m \<and> accepted g1 g2 p n k}"
    using fin by (simp add: card_Un_disjoint)
  then show ?case using Suc by (simp add: cnt_inner)
qed

lemma cnt_mergeGroups:
  "cnt (flat (newGroups (mergeGroups g1 g2 mi st))) p
   = cnt (flat (newGroups st)) p
     + card {(j, k). j < length g1 \<and> k < length g2 \<and> accepted g1 g2 p j k}"
  unfolding mergeGroups_def by (rule cnt_mergeGroups_aux)

lemma grouped_mergeGroups:
  "grouped (newGroups st) \<Longrightarrow> grouped (newGroups (mergeGroups g1 g2 mi st))"
  unfolding mergeGroups_def
  by (rule fold_invariant, assumption, rule fold_invariant, assumption) (rule grouped_mergePair)

lemma mergeAdjacent_mono:
  "cnt (flat (newGroups st)) p \<le> cnt (flat (newGroups (mergeAdjacent gs mi st))) p"
proof (induction gs mi st rule: mergeAdjacent.induct)
  case (1 k1 group1 k2 group2 rest markIndex st)
  have "cnt (flat (newGroups st)) p
        \<le> cnt (flat (newGroups (if k2 - k1 = 1 then mergeGroups group1 group2 markIndex st else st))) p"
    by (simp add: cnt_mergeGroups)
  also have "\<dots> \<le> cnt (flat (newGroups (mergeAdjacent ((k2, group2) # rest) (markIndex + length group1)
       (if k2 - k1 = 1 then mergeGroups group1 group2 markIndex st else st)))) p"
    by (rule 1)
  finally show ?case by simp
qed simp_all

lemma grouped_mergeAdjacent:
  "grouped (newGroups st) \<Longrightarrow> grouped (newGroups (mergeAdjacent gs mi st))"
  by (induction gs mi st rule: mergeAdjacent.induct) (simp_all add: grouped_mergeGroups)

lemma grouped_mergeRound: "grouped (newGroups (mergeRound gs))"
  unfolding mergeRound_def by (rule grouped_mergeAdjacent) (simp add: grouped_def)

lemma grouped_initialGroups: "grouped (initialGroups terms nv)"
  unfolding initialGroups_def
  by (rule fold_invariant) (simp_all add: grouped_def[of "[]"] grouped_push_group)

lemma mergeAdjacent_Cons:
  "rest \<noteq> [] \<Longrightarrow> \<exists>mi' st'. mergeAdjacent (e # rest) mi st = mergeAdjacent rest mi' st' \<and>
      cnt (flat (newGroups st)) p \<le> cnt (flat (newGroups st')) p"
proof -
  assume "rest \<noteq> []"
  then obtain k2 g2 rest' where r: "rest = (k2, g2) # rest'" by (cases rest) auto
  obtain k1 g1 where e: "e = (k1, g1)" by (cases e)
  let ?st = "if k2 - k1 = 1 then mergeGroups g1 g2 mi st else st"
  have "mergeAdjacent (e # rest) mi st = mergeAdjacent rest (mi + length g1) ?st"
    by (simp add: e r)
  moreover have "cnt (flat (newGroups st)) p \<le> cnt (flat (newGroups ?st)) p"
    by (simp add: cnt_mergeGroups)
  ultimately show ?thesis by blast
qed

lemma mergeAdjacent_pair:
  assumes "k2 - k1 = 1"
  shows "card {(j, k). j < length g1 \<and> k < length g2 \<and> accepted g1 g2 p j k}
         \<le> cnt (flat (newGroups (mergeAdjacent (pre @ (k1, g1) # (k2, g2) # post) mi st))) p"
proof (induction pre arbitrary: mi st)
  case Nil
  have "card {(j, k). j < length g1 \<and> k < length g2 \<and> accepted g1 g2 p j k}
        \<le> cnt (flat (newGroups (mergeGroups g1 g2 mi st))) p"
    by (simp add: cnt_mergeGroups)
  also have "\<dots> \<le> cnt (flat (newGroups (mergeAdjacent ((k2, g2) # post) (mi + length g1)
                        (mergeGroups g1 g2 mi st)))) p"
    by (rule mergeAdjacent_mono)
  finally show ?case using assms by simp
next
  case (Cons e pre)
  have "pre @ (k1, g1) # (k2, g2) # post \<noteq> []" by simp
  from mergeAdjacent_Cons[OF this, of e mi st p] obtain mi' st' where
    "mergeAdjacent (e # pre @ (k1, g1) # (k2, g2) # post) mi st
     = mergeAdjacent (pre @ (k1, g1) # (k2, g2) # post) mi' st'" by blast
  then show ?case using Cons.IH[of mi' st'] by simp
qed

text \<open>
The group of a pattern, and the entries of two adjacent keys.
\<close>

lemma adjacent_entries:
  assumes "sorted_wrt (<) (map fst (gs :: groups))" "(j, g1) \<in> set gs" "(j + 1, g2) \<in> set gs"
  shows "\<exists>pre post. gs = pre @ (j, g1) # (j + 1, g2) # post"
proof -
  from assms(2) obtain pre rest where gs: "gs = pre @ (j, g1) # rest" by (meson split_list)
  have s: "\<forall>e \<in> set pre. fst e < j" "\<forall>e \<in> set rest. j < fst e" "sorted_wrt (<) (map fst rest)"
    using assms(1) unfolding gs by (auto simp: sorted_wrt_append)
  have "(j + 1, g2) \<notin> set pre" using s(1) by fastforce
  moreover have "(j + 1, g2) \<noteq> (j, g1)" by simp
  ultimately have "(j + 1, g2) \<in> set rest"
    using assms(3) unfolding gs by simp
  then obtain e post where rest: "rest = e # post" by (cases rest) auto
  have "e = (j + 1, g2)"
  proof (rule ccontr)
    assume ne: "e \<noteq> (j + 1, g2)"
    then have "(j + 1, g2) \<in> set post" using \<open>(j + 1, g2) \<in> set rest\<close> rest by auto
    then have "fst e < j + 1" using s(3) rest by auto
    moreover have "j < fst e" using s(2) rest by auto
    ultimately show False by simp
  qed
  then show ?thesis using gs rest by blast
qed

lemma cnt_zero: "(\<forall>x \<in> set xs. binary x \<noteq> p) \<Longrightarrow> cnt xs p = 0"
  by (induction xs) auto

lemma cnt_pos: "0 < cnt xs p \<Longrightarrow> \<exists>x \<in> set xs. binary x = p"
  by (induction xs) (auto split: if_splits)

lemma cnt_flat_zero:
  assumes "\<forall>(k, v) \<in> set gs. \<forall>x \<in> set v. countOnes x = k" "\<forall>e \<in> set gs. fst e \<noteq> ones p"
  shows "cnt (flat gs) p = 0"
proof (rule cnt_zero, rule ballI)
  fix x assume "x \<in> set (flat gs)"
  then obtain k v where kv: "(k, v) \<in> set gs" "x \<in> set v" by (auto simp: flat_def)
  then have "countOnes x = k" "k \<noteq> ones p" using assms by auto
  then show "binary x \<noteq> p" by (auto simp: countOnes_ones)
qed

lemma cnt_in_group:
  assumes "grouped gs" "(ones p, g) \<in> set gs"
  shows "cnt g p = cnt (flat gs) p"
proof -
  from assms(2) obtain pre post where gs: "gs = pre @ (ones p, g) # post" by (meson split_list)
  have s: "\<forall>e \<in> set pre. fst e < ones p" "\<forall>e \<in> set post. ones p < fst e"
    using assms(1) unfolding gs grouped_def by (auto simp: sorted_wrt_append)
  have c: "\<forall>(k, v) \<in> set pre. \<forall>x \<in> set v. countOnes x = k"
          "\<forall>(k, v) \<in> set post. \<forall>x \<in> set v. countOnes x = k"
    using assms(1) unfolding gs grouped_def by auto
  have "cnt (flat pre) p = 0" using c(1) s(1) by (intro cnt_flat_zero) auto
  moreover have "cnt (flat post) p = 0" using c(2) s(2) by (intro cnt_flat_zero) auto
  ultimately show ?thesis by (simp add: gs)
qed

lemma group_of_pattern:
  assumes "grouped gs" "0 < cnt (flat gs) p"
  shows "\<exists>g. (ones p, g) \<in> set gs"
proof -
  from cnt_pos[OF assms(2)] obtain x where x: "x \<in> set (flat gs)" "binary x = p" by blast
  then obtain k v where kv: "(k, v) \<in> set gs" "x \<in> set v" by (auto simp: flat_def)
  then have "countOnes x = k" using assms(1) by (auto simp: grouped_def)
  then show ?thesis using kv(1) x(2) by (auto simp: countOnes_ones)
qed

lemma group_unique:
  assumes "grouped gs" "(k, g) \<in> set gs" "(k, g') \<in> set gs"
  shows "g = g'"
proof -
  have "distinct (map fst gs)" using assms(1) unfolding grouped_def
    by (simp add: strict_sorted_iff)
  then show ?thesis using assms(2,3) by (meson eq_key_imp_eq_value)
qed

text \<open>
  A pattern with a dash at position \<open>i\<close> is the merge of its two halves, the patterns with 0
  and with 1 at \<open>i\<close>; every pair of a copy of the one and a copy of the other is accepted.
\<close>

lemma ones_update_0: "i < length p \<Longrightarrow> p ! i = CHR ''-'' \<Longrightarrow> ones (p[i := CHR ''0'']) = ones p"
  unfolding ones_def by (induction p arbitrary: i) (auto split: nat.splits)

lemma ones_update_1: "i < length p \<Longrightarrow> p ! i = CHR ''-'' \<Longrightarrow> ones (p[i := CHR ''1'']) = ones p + 1"
  unfolding ones_def by (induction p arbitrary: i) (auto split: nat.splits)

lemma dashes_update:
  "i < length p \<Longrightarrow> p ! i = CHR ''-'' \<Longrightarrow> c \<noteq> CHR ''-'' \<Longrightarrow> Suc (dashes (p[i := c])) = dashes p"
  by (induction p arbitrary: i) (auto split: nat.splits)

lemma diffCount_update:
  "i < length p \<Longrightarrow> a \<noteq> b \<Longrightarrow> diffCount (p[i := a]) (p[i := b]) = 1"
proof (induction p arbitrary: i)
  case Nil
  then show ?case by simp
next
  case (Cons x p)
  have same: "diffCount p p = 0" by (induction p) auto
  show ?case using Cons same by (cases i) auto
qed

lemma mergeBinary_update:
  "i < length p \<Longrightarrow> a \<noteq> b \<Longrightarrow> mergeBinary (p[i := a]) (p[i := b]) = p[i := CHR ''-'']"
  by (induction p arbitrary: i) (auto split: nat.splits)

lemma accepted_halves:
  assumes "i < length pat" "pat ! i = CHR ''-''"
    "binary a = pat[i := CHR ''0'']" "binary b = pat[i := CHR ''1'']"
  shows "canMerge a b \<and> binary (Implicant_merge a b) = pat"
proof -
  have "diffCount (binary a) (binary b) = 1"
    unfolding assms(3,4) using assms(1) by (intro diffCount_update) auto
  then have "canMerge a b" by (simp add: canMerge_iff assms(3,4))
  moreover have "mergeBinary (binary a) (binary b) = pat[i := CHR ''-'']"
    unfolding assms(3,4) using assms(1) by (intro mergeBinary_update) auto
  then have "binary (Implicant_merge a b) = pat"
    using assms(2) by (simp add: Implicant_merge_def list_update_same_conv[THEN iffD2] assms(1))
  ultimately show ?thesis by simp
qed

text \<open>
  If every pattern with \<open>d\<close> dashes is carried \<open>c\<close> times, the next round carries every
  pattern with \<open>d + 1\<close> dashes \<open>(d + 1) * c\<^sup>2\<close> times or more.
\<close>

lemma copies_pos: "0 < copies d"
  by (induction d) auto

lemma intToBinary_onto:
  assumes "length p = nat nv" "set p \<subseteq> {CHR ''0'', CHR ''1''}"
  shows "\<exists>t. 0 \<le> t \<and> t < 2 ^ nat nv \<and> intToBinary t nv = p"
proof -
  let ?A = "(\<lambda>t. intToBinary t nv) ` {0..<2 ^ nat nv}"
  let ?B = "{p. set p \<subseteq> {CHR ''0'', CHR ''1''} \<and> length p = nat nv}"
  have inj: "inj_on (\<lambda>t. intToBinary t nv) {0..<2 ^ nat nv}"
    by (rule inj_onI) (auto intro: intToBinary_inj)
  have "card ?A = card {0..<(2::int) ^ nat nv}" by (rule card_image[OF inj])
  also have "\<dots> = 2 ^ nat nv" by (simp add: nat_power_eq)
  finally have cA: "card ?A = 2 ^ nat nv" .
  have cB: "card ?B = 2 ^ nat nv" by (simp add: card_lists_length_eq numeral_2_eq_2)
  have fB: "finite ?B" by (rule finite_lists_length_eq) simp
  have sub: "?A \<subseteq> ?B" using set_intToBinary by auto
  have "?A = ?B" by (rule card_subset_eq[OF fB sub]) (simp add: cA cB)
  moreover have "p \<in> ?B" using assms by simp
  ultimately have "p \<in> ?A" by simp
  then show ?thesis by auto
qed

lemma card_dashes: "card {i. i < length p \<and> p ! i = CHR ''-''} = dashes p"
  by (simp add: dashes_def length_filter_conv_card)

lemma card_cnt: "card {i. i < length g \<and> binary (g ! i) = p} = cnt g p"
  by (simp add: cnt_def length_filter_conv_card)

lemma round_multiplies:
  assumes g: "grouped gs" and len: "length pat = n" and ds: "dashes pat = Suc d" and c: "0 < c"
    and ih: "\<forall>i < n. pat ! i = CHR ''-'' \<longrightarrow>
               c \<le> cnt (flat gs) (pat[i := CHR ''0'']) \<and> c \<le> cnt (flat gs) (pat[i := CHR ''1''])"
  shows "Suc d * c\<^sup>2 \<le> cnt (flat (newGroups (mergeRound gs))) pat"
proof -
  let ?D = "{i. i < length pat \<and> pat ! i = CHR ''-''}"
  let ?pa = "\<lambda>i. pat[i := CHR ''0'']" and ?pb = "\<lambda>i. pat[i := CHR ''1'']"
  have cD: "card ?D = Suc d" using ds by (simp add: card_dashes)
  have fD: "finite ?D" by simp
  have "?D \<noteq> {}"
  proof
    assume "?D = {}"
    then have "card ?D = 0" by (simp only: card.empty)
    then show False using cD by simp
  qed
  then obtain i0 where i0: "i0 < length pat" "pat ! i0 = CHR ''-''" by blast
  have oa: "ones (?pa i) = ones pat" and ob: "ones (?pb i) = ones pat + 1" if "i \<in> ?D" for i
    using that by (simp_all add: ones_update_0 ones_update_1)
  have ca: "c \<le> cnt (flat gs) (?pa i)" and cb: "c \<le> cnt (flat gs) (?pb i)" if "i \<in> ?D" for i
    using that ih len by auto
  have i0D: "i0 \<in> ?D" using i0 by simp
  have pa0: "0 < cnt (flat gs) (?pa i0)" and pb0: "0 < cnt (flat gs) (?pb i0)"
    using ca[OF i0D] cb[OF i0D] c by auto
  from group_of_pattern[OF g pa0] obtain g1 where "(ones (?pa i0), g1) \<in> set gs" by blast
  then have g1: "(ones pat, g1) \<in> set gs" using oa[OF i0D] by simp
  from group_of_pattern[OF g pb0] obtain g2 where "(ones (?pb i0), g2) \<in> set gs" by blast
  then have g2: "(ones pat + 1, g2) \<in> set gs" using ob[OF i0D] by simp
  obtain pre post where gs: "gs = pre @ (ones pat, g1) # (ones pat + 1, g2) # post"
    using adjacent_entries[OF _ g1 g2] g unfolding grouped_def by blast
  let ?S = "{(j, k). j < length g1 \<and> k < length g2 \<and> accepted g1 g2 pat j k}"
  let ?I = "\<lambda>i. {j. j < length g1 \<and> binary (g1 ! j) = ?pa i}"
  let ?J = "\<lambda>i. {k. k < length g2 \<and> binary (g2 ! k) = ?pb i}"
  have fS: "finite ?S" by (rule finite_subset[of _ "{..<length g1} \<times> {..<length g2}"]) auto
  have low: "card ?S \<le> cnt (flat (newGroups (mergeRound gs))) pat"
    unfolding mergeRound_def gs by (rule mergeAdjacent_pair) simp
  have cI: "c \<le> card (?I i)" if "i \<in> ?D" for i
  proof -
    have "(ones (?pa i), g1) \<in> set gs" using g1 oa[OF that] by simp
    then have "cnt g1 (?pa i) = cnt (flat gs) (?pa i)" by (rule cnt_in_group[OF g])
    then show ?thesis using ca[OF that] by (simp add: card_cnt)
  qed
  have cJ: "c \<le> card (?J i)" if "i \<in> ?D" for i
  proof -
    have "(ones (?pb i), g2) \<in> set gs" using g2 ob[OF that] by simp
    then have "cnt g2 (?pb i) = cnt (flat gs) (?pb i)" by (rule cnt_in_group[OF g])
    then show ?thesis using cb[OF that] by (simp add: card_cnt)
  qed
  have sub: "(\<Union>i \<in> ?D. ?I i \<times> ?J i) \<subseteq> ?S"
  proof
    fix x assume "x \<in> (\<Union>i \<in> ?D. ?I i \<times> ?J i)"
    then obtain i j k where x: "x = (j, k)" "i \<in> ?D" "j \<in> ?I i" "k \<in> ?J i" by auto
    then have "canMerge (g1 ! j) (g2 ! k) \<and> binary (Implicant_merge (g1 ! j) (g2 ! k)) = pat"
      by (intro accepted_halves[of i]) auto
    then show "x \<in> ?S" using x by (simp add: accepted_def)
  qed
  have disj: "\<forall>i \<in> ?D. \<forall>i' \<in> ?D. i \<noteq> i' \<longrightarrow> (?I i \<times> ?J i) \<inter> (?I i' \<times> ?J i') = {}"
  proof (intro ballI impI)
    fix i i' assume i: "i \<in> ?D" "i' \<in> ?D" "i \<noteq> i'"
    have "?pa i \<noteq> ?pa i'"
    proof
      assume "?pa i = ?pa i'"
      then have "?pa i ! i = ?pa i' ! i" by simp
      then show False using i by simp
    qed
    then show "(?I i \<times> ?J i) \<inter> (?I i' \<times> ?J i') = {}" by auto
  qed
  have "Suc d * c\<^sup>2 = (\<Sum>i \<in> ?D. c * c)" using cD by (simp add: power2_eq_square)
  also have "\<dots> \<le> (\<Sum>i \<in> ?D. card (?I i \<times> ?J i))"
    by (rule sum_mono) (simp add: card_cartesian_product mult_le_mono cI cJ)
  also have "\<dots> = card (\<Union>i \<in> ?D. ?I i \<times> ?J i)"
    by (rule card_UN_disjoint[symmetric]) (use fD disj in auto)
  also have "\<dots> \<le> card ?S" by (rule card_mono[OF fS sub])
  finally show ?thesis using low by simp
qed

text \<open>
With every term present, round \<open>d + 1\<close> carries \<open>copies d\<close> of each pattern with \<open>d\<close> dashes, and the merge phase runs for more than \<open>numVars\<close> rounds.
\<close>

lemma cnt_member: "x \<in> set xs \<Longrightarrow> binary x = p \<Longrightarrow> 1 \<le> cnt xs p"
  by (induction xs) auto

lemma cnt_le_length: "cnt xs p \<le> length xs"
  by (simp add: cnt_def)

lemma nextGroups_Suc:
  "(nextGroups ^^ Suc d) gs = newGroups (mergeRound ((nextGroups ^^ d) gs))"
  by (simp only: funpow.simps o_apply nextGroups_def[of "(nextGroups ^^ d) gs"])

lemma grouped_rounds: "grouped ((nextGroups ^^ d) (initialGroups T nv))"
proof (induction d)
  case 0
  then show ?case by (simp add: grouped_initialGroups)
next
  case (Suc d)
  show ?case unfolding nextGroups_Suc by (rule grouped_mergeRound)
qed

lemma copies_grow:
  assumes "full T nv"
  shows "length pat = nat nv \<Longrightarrow> set pat \<subseteq> {CHR ''0'', CHR ''1'', CHR ''-''} \<Longrightarrow> dashes pat = d \<Longrightarrow>
         copies d \<le> cnt (flat ((nextGroups ^^ d) (initialGroups T nv))) pat"
proof (induction d arbitrary: pat)
  case 0
  then have "set pat \<subseteq> {CHR ''0'', CHR ''1''}" by (auto simp: dashes_0_iff)
  from intToBinary_onto[OF "0.prems"(1) this] obtain t where
    t: "0 \<le> t" "t < 2 ^ nat nv" "intToBinary t nv = pat" by blast
  then have "t \<in> set T" using assms by (simp add: full_def)
  then have "Implicant_term t nv \<in> set (flat (initialGroups T nv))"
    by (simp add: set_flat_initialGroups)
  moreover have "binary (Implicant_term t nv) = pat" using t(3) by (simp add: Implicant_term_def)
  ultimately have "1 \<le> cnt (flat (initialGroups T nv)) pat" by (rule cnt_member)
  then show ?case by simp
next
  case (Suc d)
  let ?gs = "(nextGroups ^^ d) (initialGroups T nv)"
  have half: "copies d \<le> cnt (flat ?gs) (pat[i := c])"
    if "i < nat nv" "pat ! i = CHR ''-''" "c = CHR ''0'' \<or> c = CHR ''1''" for i c
  proof (rule Suc.IH)
    show "length (pat[i := c]) = nat nv" using Suc.prems(1) by simp
    show "set (pat[i := c]) \<subseteq> {CHR ''0'', CHR ''1'', CHR ''-''}"
      using Suc.prems(2) that(3) set_update_subset_insert[of pat i c] by auto
    have "Suc (dashes (pat[i := c])) = dashes pat"
      using that Suc.prems(1) by (intro dashes_update) auto
    then show "dashes (pat[i := c]) = d" using Suc.prems(3) by simp
  qed
  have "Suc d * (copies d)\<^sup>2 \<le> cnt (flat (newGroups (mergeRound ?gs))) pat"
    using grouped_rounds Suc.prems(1) Suc.prems(3) copies_pos
  proof (rule round_multiplies)
    show "\<forall>i < nat nv. pat ! i = CHR ''-'' \<longrightarrow>
            copies d \<le> cnt (flat ?gs) (pat[i := CHR ''0'']) \<and>
            copies d \<le> cnt (flat ?gs) (pat[i := CHR ''1''])"
      using half by blast
  qed
  then show ?case unfolding nextGroups_Suc by simp
qed

lemma loopRounds_pos: "0 < loopRounds gs"
  by (subst loopRounds.simps) simp

lemma loopRounds_reach:
  "(\<forall>i < k. changed (mergeRound ((nextGroups ^^ i) gs))) \<Longrightarrow> k < loopRounds gs"
proof (induction k arbitrary: gs)
  case 0
  then show ?case by (simp add: loopRounds_pos)
next
  case (Suc k)
  have ch: "changed (mergeRound gs)" using Suc.prems by force
  have "\<forall>i < k. changed (mergeRound ((nextGroups ^^ i) (nextGroups gs)))"
  proof (intro allI impI)
    fix i assume "i < k"
    then have "changed (mergeRound ((nextGroups ^^ Suc i) gs))" using Suc.prems by blast
    then show "changed (mergeRound ((nextGroups ^^ i) (nextGroups gs)))"
      by (simp only: funpow_Suc_right o_apply)
  qed
  then have "k < loopRounds (nextGroups gs)" by (rule Suc.IH)
  moreover have "loopRounds gs = Suc (loopRounds (nextGroups gs))"
    using ch by (subst loopRounds.simps) (simp add: nextGroups_def)
  ultimately show ?case by simp
qed

lemma dashes_replicate: "dashes (replicate a (CHR ''-'') @ replicate b (CHR ''0'')) = a"
  by (induction a) (simp_all add: dashes_def)

lemma full_cube_rounds:
  assumes "full T nv"
  shows "nat nv < loopRounds (initialGroups T nv)"
proof (rule loopRounds_reach, intro allI impI)
  fix i assume i: "i < nat nv"
  let ?pat = "replicate (Suc i) (CHR ''-'') @ replicate (nat nv - Suc i) (CHR ''0'')"
  have "copies (Suc i) \<le> cnt (flat ((nextGroups ^^ Suc i) (initialGroups T nv))) ?pat"
    using assms
  proof (rule copies_grow)
    show "length ?pat = nat nv" using i by simp
    show "set ?pat \<subseteq> {CHR ''0'', CHR ''1'', CHR ''-''}" by auto
    show "dashes ?pat = Suc i" by (rule dashes_replicate)
  qed
  then have "0 < cnt (flat ((nextGroups ^^ Suc i) (initialGroups T nv))) ?pat"
    using copies_pos[of "Suc i"] by (rule less_le_trans[rotated])
  then have "flat (newGroups (mergeRound ((nextGroups ^^ i) (initialGroups T nv)))) \<noteq> []"
    unfolding nextGroups_Suc by auto
  then show "changed (mergeRound ((nextGroups ^^ i) (initialGroups T nv)))"
    using round_inv_mergeRound[of "(nextGroups ^^ i) (initialGroups T nv)"]
    by (simp add: round_inv_def)
qed

lemma copies_numeral:
  "copies (numeral k) = numeral k * (copies (pred_numeral k))\<^sup>2"
  using copies.simps(2)[of "pred_numeral k"] by (simp only: numeral_eq_Suc)

lemma copies_1: "copies (Suc 0) = Suc 0"
  by simp

lemma copies_6: "copies 6 = 16511297126400"
  by (simp add: copies_numeral copies_1 del: copies.simps)

section \<open>The properties\<close>

text \<open>
  C1. For every valid problem instance (\<open>numVars\<close> in \<open>[1, 8]\<close>, all terms in range) the
  produced cover covers every term of \<open>minterms\<close>, and the formatted SOP expression, read
  as a Boolean function over the \<open>2 ^ numVars\<close> inputs, is 1 exactly on the minterms and
  on the don't-care terms that an implicant of the cover absorbs, and 0 on every term
  outside \<open>minterms \<union> dontCares\<close>.
\<close>

theorem cover_correct:
  assumes "valid qm"
  shows "(\<forall>m \<in> set (minterms qm). \<exists>c \<in> set (minimalCover qm). covers c m (numVars qm)) \<and>
         (\<exists>sop. fst (minimize qm) = Inr sop \<and>
            (\<forall>t. 0 \<le> t \<and> t \<le> 2 ^ nat (numVars qm) - 1 \<longrightarrow>
                 evalSOP (numVars qm) sop t =
                   (t \<in> set (minterms qm) \<or>
                    (t \<in> set (dontcares qm) \<and> (\<exists>c \<in> set (minimalCover qm). covers c t (numVars qm)))) \<and>
                 (t \<notin> set (minterms qm) \<union> set (dontcares qm) \<longrightarrow> \<not> evalSOP (numVars qm) sop t)))"
proof (intro conjI exI allI impI)
  show cov: "\<forall>m \<in> set (minterms qm). \<exists>c \<in> set (minimalCover qm). covers c m (numVars qm)"
    by (rule cover_complete[OF assms])
  show "fst (minimize qm) = Inr (formatSOP qm (minimalCover qm))"
    by (simp add: minimize_valid[OF assms])
  fix t :: int assume "0 \<le> t \<and> t \<le> 2 ^ nat (numVars qm) - 1"
  then have r: "in_range (numVars qm) t" by (simp add: in_range_def)
  have ev: "evalSOP (numVars qm) (formatSOP qm (minimalCover qm)) t
            = (\<exists>c \<in> set (minimalCover qm). covers c t (numVars qm))"
    by (rule eval_format[OF assms cover_wf[OF assms]])
  show "evalSOP (numVars qm) (formatSOP qm (minimalCover qm)) t =
          (t \<in> set (minterms qm) \<or>
           (t \<in> set (dontcares qm) \<and> (\<exists>c \<in> set (minimalCover qm). covers c t (numVars qm))))"
    unfolding ev using cov cover_exact[OF assms _ r] by blast
  show "\<not> evalSOP (numVars qm) (formatSOP qm (minimalCover qm)) t"
    if "t \<notin> set (minterms qm) \<union> set (dontcares qm)"
    unfolding ev using that cover_exact[OF assms _ r] by blast
qed

theorem cover_correct_witness:
  "valid (QuineMcCluskey_new 3 [0, 2, 4, 6] [1, 5]) \<and>
   (\<exists>c \<in> set (minimalCover (QuineMcCluskey_new 3 [0, 2, 4, 6] [1, 5])). covers c 6 3) \<and>
   (\<exists>sop. fst (minimize (QuineMcCluskey_new 3 [0, 2, 4, 6] [1, 5])) = Inr sop \<and>
      evalSOP 3 sop 4 \<and> \<not> evalSOP 3 sop 3)"
proof -
  let ?qm = "QuineMcCluskey_new 3 [0, 2, 4, 6] [1, 5]"
  have v: "valid ?qm" by (simp add: valid_new)
  have f: "numVars ?qm = 3" "minterms ?qm = [0, 2, 4, 6]" "dontcares ?qm = [1, 5]"
    by (simp_all add: QuineMcCluskey_new_def initializeVarNames_def)
  note cc = cover_correct[OF v, unfolded f]
  from cc have "\<exists>c \<in> set (minimalCover ?qm). covers c 6 3" by simp
  moreover from cc obtain sop where sop: "fst (minimize ?qm) = Inr sop"
    "\<forall>t. 0 \<le> t \<and> t \<le> 2 ^ nat 3 - 1 \<longrightarrow>
        evalSOP 3 sop t = (t \<in> set [0, 2, 4, 6] \<or> (t \<in> set [1, 5] \<and> (\<exists>c \<in> set (minimalCover ?qm). covers c t 3))) \<and>
        (t \<notin> set [0, 2, 4, 6] \<union> set [1, 5] \<longrightarrow> \<not> evalSOP 3 sop t)"
    by blast
  from sop(2)[rule_format, of 4] have "evalSOP 3 sop 4" by simp
  moreover from sop(2)[rule_format, of 3] have "\<not> evalSOP 3 sop 3" by simp
  ultimately show ?thesis using v sop(1) by blast
qed

text \<open>
  C2. \<^verbatim>\<open>minimize()\<close> is specified to fail with \<open>InvalidVariableCount\<close> exactly when
  \<open>numVars\<close> is outside \<open>[1, 8]\<close>. The check in \<^verbatim>\<open>minimize()\<close> is \<^verbatim>\<open>numVars > 8\<close> alone
  (lemma \<open>invalid_count_iff\<close>): with 9 variables the call fails, with no variable at all it
  returns a constant, where \<^verbatim>\<open>parseInput\<close> of the same file rejects every \<open>numVars < 1\<close>.
\<close>

theorem minimize_zero_variables:
  "fst (minimize (QuineMcCluskey_new 0 [] [])) = Inr ''0'' \<and>
   fst (minimize (QuineMcCluskey_new 0 [0] [])) = Inr ''1'' \<and>
   fst (minimize (QuineMcCluskey_new 9 [] [])) = Inl InvalidVariableCount"
  by code_simp

text \<open>
  C3. With \<open>numVars\<close> in \<open>[1, 8]\<close>, \<^verbatim>\<open>minimize()\<close> fails with \<open>TermOutOfRange\<close> exactly when
  some minterm or don't-care term lies outside \<open>[0, 2 ^ numVars - 1]\<close>. A failure is the
  verdict of the validation alone (the first offending minterm, or else the first
  offending don't-care term), it carries no result string, and the object is left as it
  was.
\<close>

theorem term_range_validation:
  assumes "1 \<le> numVars qm" "numVars qm \<le> 8"
  shows "((\<exists>e. fst (minimize qm) = Inl e \<and> isTermOutOfRange e) =
            (\<exists>t \<in> set (minterms qm @ dontcares qm). t < 0 \<or> t > 2 ^ nat (numVars qm) - 1)) \<and>
         (\<forall>e. fst (minimize qm) = Inl e \<longrightarrow>
            (\<exists>t. (e = MintermOutOfRange t \<and>
                    find (\<lambda>term. term < 0 \<or> term > 2 ^ nat (numVars qm) - 1) (minterms qm) = Some t) \<or>
                  (e = DontCareOutOfRange t \<and>
                    find (\<lambda>term. term < 0 \<or> term > 2 ^ nat (numVars qm) - 1) (minterms qm) = None \<and>
                    find (\<lambda>term. term < 0 \<or> term > 2 ^ nat (numVars qm) - 1) (dontcares qm) = Some t))) \<and>
         snd (minimize qm) = qm"
proof -
  let ?out = "\<lambda>term. term < 0 \<or> term > 2 ^ nat (numVars qm) - 1"
  have m: "minimize qm =
        (case find ?out (minterms qm) of
              Some term \<Rightarrow> (Inl (MintermOutOfRange term), qm)
            | None \<Rightarrow>
               (case find ?out (dontcares qm) of
                  Some term \<Rightarrow> (Inl (DontCareOutOfRange term), qm)
                | None \<Rightarrow> (Inr (formatSOP qm (minimalCover qm)), qm)))"
    using assms by (simp add: minimize_def Let_def)
  show ?thesis
  proof (cases "find ?out (minterms qm)")
    case (Some t)
    then have "t \<in> set (minterms qm)" "?out t" by (auto simp: find_Some_iff)
    then have "\<exists>t \<in> set (minterms qm @ dontcares qm). ?out t" by auto
    then show ?thesis using Some m by (simp add: isTermOutOfRange_def)
  next
    case None
    note n1 = None
    then have nm: "\<forall>t \<in> set (minterms qm). \<not> ?out t" by (simp only: find_out_of_range)
    show ?thesis
    proof (cases "find ?out (dontcares qm)")
      case (Some t)
      then have "t \<in> set (dontcares qm)" "?out t" by (auto simp: find_Some_iff)
      then have "\<exists>t \<in> set (minterms qm @ dontcares qm). ?out t" by auto
      then show ?thesis using Some n1 m by (simp add: isTermOutOfRange_def)
    next
      case None
      then have "\<forall>t \<in> set (dontcares qm). \<not> ?out t" by (simp only: find_out_of_range)
      with nm have "\<not> (\<exists>t \<in> set (minterms qm @ dontcares qm). ?out t)" by auto
      then show ?thesis using None n1 m by simp
    qed
  qed
qed

theorem term_range_validation_witness:
  "1 \<le> numVars (QuineMcCluskey_new 2 [5] []) \<and> numVars (QuineMcCluskey_new 2 [5] []) \<le> 8 \<and>
   (\<exists>e. fst (minimize (QuineMcCluskey_new 2 [5] [])) = Inl e \<and> isTermOutOfRange e) \<and>
   snd (minimize (QuineMcCluskey_new 2 [5] [])) = QuineMcCluskey_new 2 [5] []"
proof -
  let ?qm = "QuineMcCluskey_new 2 [5] []"
  have f: "numVars ?qm = 2" "minterms ?qm = [5]" "dontcares ?qm = []"
    by (simp_all add: QuineMcCluskey_new_def initializeVarNames_def)
  have h: "1 \<le> numVars ?qm" "numVars ?qm \<le> 8" by (simp_all add: f)
  note t = term_range_validation[OF h]
  have "\<exists>t \<in> set (minterms ?qm @ dontcares ?qm). t < 0 \<or> t > 2 ^ nat (numVars ?qm) - 1"
    by (simp add: f)
  with t have "\<exists>e. fst (minimize ?qm) = Inl e \<and> isTermOutOfRange e" by blast
  moreover from t have "snd (minimize ?qm) = ?qm" by blast
  ultimately show ?thesis using h by blast
qed

text \<open>
  C4. The specification has \<^verbatim>\<open>minimize()\<close> terminate with a result string on every valid
  problem instance, with no failure once the validation has passed. The program does not:
  the merge phase appends one implicant for every accepted pair
  (\<^verbatim>\<open>newGroups[...].push_back(merged)\<close>) and calls \<^verbatim>\<open>removeDuplicates\<close> only after its last
  round, so the copies of a pattern multiply from round to round. For six variables and
  all 64 minterms, a valid instance whose answer is \<^verbatim>\<open>1\<close>, the merge phase reaches a seventh
  round, and the groups it needs for that round hold 16511297126400 implicants or more:
  beyond the memory of the machine, and beyond what the \<^verbatim>\<open>int\<close> counters \<open>totalSize\<close> and
  \<open>markIndex\<close> of the source can count. The call ends in \<^verbatim>\<open>std::bad_alloc\<close>, not in a
  result string.
\<close>

theorem implicant_blowup:
  "valid (QuineMcCluskey_new 6 [0..63] []) \<and>
   6 < primeRounds (QuineMcCluskey_new 6 [0..63] []) (allTerms (QuineMcCluskey_new 6 [0..63] [])) \<and>
   16511297126400
     \<le> totalSize (roundGroups (allTerms (QuineMcCluskey_new 6 [0..63] []))
                               (numVars (QuineMcCluskey_new 6 [0..63] [])) 7)"
proof -
  let ?qm = "QuineMcCluskey_new 6 [0..63] []"
  let ?T = "allTerms ?qm"
  have v: "valid ?qm" by (simp add: valid_new)
  have nv: "numVars ?qm = 6" by (simp add: QuineMcCluskey_new_def initializeVarNames_def)
  have sT: "set ?T = {0..63}"
    by (simp add: set_allTerms QuineMcCluskey_new_def initializeVarNames_def)
  have f: "full ?T 6" by (auto simp: full_def sT)
  have ne: "?T \<noteq> []" using sT by auto
  have r: "6 < primeRounds ?qm ?T"
    using full_cube_rounds[OF f] ne by (simp add: primeRounds_def nv)
  let ?pat = "replicate 6 (CHR ''-'') @ replicate 0 (CHR ''0'')"
  have "copies 6 \<le> cnt (flat ((nextGroups ^^ 6) (initialGroups ?T 6))) ?pat"
    using f
  proof (rule copies_grow)
    show "length ?pat = nat 6" by simp
    show "set ?pat \<subseteq> {CHR ''0'', CHR ''1'', CHR ''-''}" by auto
    show "dashes ?pat = 6" by (rule dashes_replicate)
  qed
  also have "\<dots> \<le> length (flat ((nextGroups ^^ 6) (initialGroups ?T 6)))" by (rule cnt_le_length)
  also have "\<dots> = totalSize (roundGroups ?T (numVars ?qm) 7)"
    by (simp add: totalSize_flat roundGroups_def nv)
  finally show ?thesis using v r by (simp add: copies_6)
qed

theorem implicant_blowup_witness:
  "valid (QuineMcCluskey_new 6 [0..63] []) \<and>
   2147483647
     < totalSize (roundGroups (allTerms (QuineMcCluskey_new 6 [0..63] []))
                              (numVars (QuineMcCluskey_new 6 [0..63] [])) 7)"
  using implicant_blowup by simp

text \<open>
  C5. For every valid problem instance whose final cover contains an implicant whose
  pattern consists of dashes only, the result is exactly the string \<^verbatim>\<open>1\<close>; for two
  variables and the minterms \<open>{0, 1, 2, 3}\<close>, \<^verbatim>\<open>minimize()\<close> returns \<^verbatim>\<open>1\<close>.
\<close>

theorem tautology_constant:
  "(valid qm \<longrightarrow> (\<exists>imp \<in> set (minimalCover qm). set (binary imp) \<subseteq> {CHR ''-''}) \<longrightarrow>
      fst (minimize qm) = Inr ''1'') \<and>
   fst (minimize (QuineMcCluskey_new 2 [0, 1, 2, 3] [])) = Inr ''1''"
proof (intro conjI impI)
  assume "valid qm" "\<exists>imp \<in> set (minimalCover qm). set (binary imp) \<subseteq> {CHR ''-''}"
  then show "fst (minimize qm) = Inr ''1''"
    by (simp add: minimize_valid formatSOP_all_dash)
next
  show "fst (minimize (QuineMcCluskey_new 2 [0, 1, 2, 3] [])) = Inr ''1''" by code_simp
qed

theorem tautology_constant_witness:
  "valid (QuineMcCluskey_new 3 [0, 1, 2, 3, 4, 5] [6, 7]) \<and>
   (\<exists>imp \<in> set (minimalCover (QuineMcCluskey_new 3 [0, 1, 2, 3, 4, 5] [6, 7])).
      set (binary imp) \<subseteq> {CHR ''-''}) \<and>
   fst (minimize (QuineMcCluskey_new 3 [0, 1, 2, 3, 4, 5] [6, 7])) = Inr ''1''"
proof -
  let ?qm = "QuineMcCluskey_new 3 [0, 1, 2, 3, 4, 5] [6, 7]"
  have v: "valid ?qm" by (simp add: valid_new)
  have e: "\<exists>imp \<in> set (minimalCover ?qm). set (binary imp) \<subseteq> {CHR ''-''}" by code_simp
  from tautology_constant[of ?qm] v e have "fst (minimize ?qm) = Inr ''1''" by blast
  then show ?thesis using v e by blast
qed

text \<open>
  C6. The formatter turns the empty cover into the string \<^verbatim>\<open>0\<close>; for a valid problem
  instance the final cover is empty only when there are no minterms; for two variables, no
  minterms and no don't-cares, \<^verbatim>\<open>minimize()\<close> returns \<^verbatim>\<open>0\<close>.
\<close>

theorem contradiction_constant:
  "formatSOP qm [] = ''0'' \<and>
   (valid qm \<longrightarrow> minimalCover qm = [] \<longrightarrow> fst (minimize qm) = Inr ''0'' \<and> minterms qm = []) \<and>
   fst (minimize (QuineMcCluskey_new 2 [] [])) = Inr ''0''"
proof (intro conjI impI)
  show "formatSOP qm [] = ''0''" by (simp add: formatSOP_def)
next
  assume v: "valid qm" and e: "minimalCover qm = []"
  show "fst (minimize qm) = Inr ''0''" using v e by (simp add: minimize_valid formatSOP_def)
  show "minterms qm = []"
  proof (rule ccontr)
    assume "minterms qm \<noteq> []"
    then obtain m where "m \<in> set (minterms qm)" by (cases "minterms qm") auto
    then have "\<exists>c \<in> set (minimalCover qm). covers c m (numVars qm)"
      using cover_complete[OF v] by blast
    then show False using e by simp
  qed
next
  show "fst (minimize (QuineMcCluskey_new 2 [] [])) = Inr ''0''" by code_simp
qed

theorem contradiction_constant_witness:
  "valid (QuineMcCluskey_new 2 [] [1, 3]) \<and>
   minimalCover (QuineMcCluskey_new 2 [] [1, 3]) = [] \<and>
   fst (minimize (QuineMcCluskey_new 2 [] [1, 3])) = Inr ''0'' \<and>
   minterms (QuineMcCluskey_new 2 [] [1, 3]) = []"
proof -
  let ?qm = "QuineMcCluskey_new 2 [] [1, 3]"
  have v: "valid ?qm" by (simp add: valid_new)
  have e: "minimalCover ?qm = []" by code_simp
  from contradiction_constant[of ?qm] v e
  have "fst (minimize ?qm) = Inr ''0'' \<and> minterms ?qm = []" by blast
  then show ?thesis using v e by blast
qed

text \<open>
  C7. For \<open>numVars = 3\<close>, minterms \<open>{0, 2, 4, 6}\<close> and don't-cares \<open>{1, 5}\<close>,
  \<^verbatim>\<open>minimize()\<close> returns exactly the string \<^verbatim>\<open>C'\<close>, and the cover it formats is the
  single implicant with pattern \<^verbatim>\<open>--0\<close>.
\<close>

theorem minimize_dontcare_absorption:
  "fst (minimize (QuineMcCluskey_new 3 [0, 2, 4, 6] [1, 5])) = Inr [CHR ''C'', CHR 0x27] \<and>
   map binary (minimalCover (QuineMcCluskey_new 3 [0, 2, 4, 6] [1, 5])) = [''--0'']"
  by code_simp

text \<open>
  C8. For a valid problem instance, the product term the formatter renders for an
  implicant of the final cover is the one the specification describes: position \<open>i\<close>,
  counted from the most significant bit, gives the letter \<^verbatim>\<open>'A' + i\<close>, plain for 1, with
  an apostrophe for 0, nothing for a dash. When the cover is not empty and no implicant is
  without literals, the result is these products joined by \<^verbatim>\<open>" + "\<close>. Position \<open>i\<close> of
  the binary form of a term is bit \<open>numVars - 1 - i\<close> of the term.
\<close>

theorem product_term_rendering:
  assumes "valid qm"
  shows "(\<forall>c \<in> set (minimalCover qm). binaryToTerm qm (binary c) = spec_product (binary c)) \<and>
         (minimalCover qm \<noteq> [] \<and> (\<forall>c \<in> set (minimalCover qm). \<not> all_dash (binary c)) \<longrightarrow>
            fst (minimize qm) = Inr (joinSOP (map (\<lambda>c. spec_product (binary c)) (minimalCover qm)))) \<and>
         (\<forall>t i. i < nat (numVars qm) \<longrightarrow>
            (intToBinary t (numVars qm) ! i = CHR ''1'') = bit t (nat (numVars qm) - 1 - i))"
proof -
  have len: "\<forall>c \<in> set (minimalCover qm). length (binary c) = nat (numVars qm)"
    using cover_wf[OF assms] by (auto simp: wf_imp_def)
  have a: "\<forall>c \<in> set (minimalCover qm). binaryToTerm qm (binary c) = spec_product (binary c)"
    using len binaryToTerm_spec[OF assms] by blast
  have b: "fst (minimize qm) = Inr (joinSOP (map (\<lambda>c. spec_product (binary c)) (minimalCover qm)))"
    if "minimalCover qm \<noteq> []" "\<forall>c \<in> set (minimalCover qm). \<not> all_dash (binary c)"
    using formatSOP_general[OF assms len that] by (simp add: minimize_valid[OF assms])
  have c: "(intToBinary t (numVars qm) ! i = CHR ''1'') = bit t (nat (numVars qm) - 1 - i)"
    if "i < nat (numVars qm)" for t i
    using that by (simp add: intToBinary_nth)
  show ?thesis using a b c by blast
qed

theorem product_term_rendering_witness:
  "valid (QuineMcCluskey_new 2 [0, 1, 2] []) \<and>
   minimalCover (QuineMcCluskey_new 2 [0, 1, 2] []) \<noteq> [] \<and>
   map binary (minimalCover (QuineMcCluskey_new 2 [0, 1, 2] [])) = [''0-'', ''-0''] \<and>
   fst (minimize (QuineMcCluskey_new 2 [0, 1, 2] []))
     = Inr [CHR ''A'', CHR 0x27, CHR '' '', CHR ''+'', CHR '' '', CHR ''B'', CHR 0x27] \<and>
   (intToBinary 2 (numVars (QuineMcCluskey_new 2 [0, 1, 2] [])) ! 0 = CHR ''1'') = bit (2::int) (2 - 1 - 0)"
proof -
  let ?qm = "QuineMcCluskey_new 2 [0, 1, 2] []"
  have v: "valid ?qm" by (simp add: valid_new)
  have nv: "numVars ?qm = 2" by (simp add: QuineMcCluskey_new_def initializeVarNames_def)
  have ne: "minimalCover ?qm \<noteq> []" by code_simp
  have nd: "\<forall>c \<in> set (minimalCover ?qm). \<not> all_dash (binary c)" by code_simp
  have bs: "map binary (minimalCover ?qm) = [''0-'', ''-0'']" by code_simp
  have j: "joinSOP (map (\<lambda>c. spec_product (binary c)) (minimalCover ?qm))
           = [CHR ''A'', CHR 0x27, CHR '' '', CHR ''+'', CHR '' '', CHR ''B'', CHR 0x27]" by code_simp
  note t = product_term_rendering[OF v]
  from t ne nd have "fst (minimize ?qm) = Inr (joinSOP (map (\<lambda>c. spec_product (binary c)) (minimalCover ?qm)))"
    by blast
  then have m: "fst (minimize ?qm) = Inr [CHR ''A'', CHR 0x27, CHR '' '', CHR ''+'', CHR '' '', CHR ''B'', CHR 0x27]"
    unfolding j .
  have "(0::nat) < nat (numVars ?qm)" by (simp add: nv)
  with t have "(intToBinary 2 (numVars ?qm) ! 0 = CHR ''1'') = bit (2::int) (nat (numVars ?qm) - 1 - 0)"
    by blast
  then have "(intToBinary 2 (numVars ?qm) ! 0 = CHR ''1'') = bit (2::int) (2 - 1 - 0)"
    by (simp add: nv)
  then show ?thesis using v ne bs m by blast
qed

text \<open>
  C9. Two calls of \<^verbatim>\<open>minimize()\<close> on the same object give the same outcome, and a call
  changes no field of the object. For every instance with \<open>numVars\<close> not negative, which
  includes every problem instance of the specification, the calls of \<^verbatim>\<open>std::sort\<close> leave
  the outcome no freedom: \<open>minimize qm\<close> is an outcome of the call, every outcome of a first
  call leaves the object as it was, and every outcome of a second call on that object is
  the outcome of the first, the same error or the same string.
\<close>

theorem minimize_repeatable:
  assumes "0 \<le> numVars qm"
  shows "minimize_any qm (minimize qm) \<and>
         (\<forall>first second. minimize_any qm first \<and> minimize_any (snd first) second
            \<longrightarrow> snd first = qm \<and> second = first)"
proof (intro conjI allI impI)
  show "minimize_any qm (minimize qm)" using assms by (rule minimize_any_minimize)
next
  fix first second
  assume a: "minimize_any qm first \<and> minimize_any (snd first) second"
  from a have a1: "minimize_any qm first" and a2: "minimize_any (snd first) second" by simp_all
  have f: "first = minimize qm" using assms a1 by (rule minimize_any_unique)
  show s: "snd first = qm" unfolding f by (rule snd_minimize)
  have "second = minimize qm" using assms a2 unfolding s by (rule minimize_any_unique)
  then show "second = first" using f by simp
qed

theorem minimize_repeatable_witness:
  "0 \<le> numVars (QuineMcCluskey_new 2 [0, 1, 2] []) \<and>
   minimize_any (QuineMcCluskey_new 2 [0, 1, 2] []) (minimize (QuineMcCluskey_new 2 [0, 1, 2] [])) \<and>
   minimize_any (snd (minimize (QuineMcCluskey_new 2 [0, 1, 2] [])))
                (minimize (QuineMcCluskey_new 2 [0, 1, 2] [])) \<and>
   snd (minimize (QuineMcCluskey_new 2 [0, 1, 2] [])) = QuineMcCluskey_new 2 [0, 1, 2] []"
proof -
  let ?qm = "QuineMcCluskey_new 2 [0, 1, 2] []"
  have nv: "0 \<le> numVars ?qm" by (simp add: QuineMcCluskey_new_def initializeVarNames_def)
  note r = minimize_repeatable[OF nv]
  have 1: "minimize_any ?qm (minimize ?qm)" using r by simp
  have s: "snd (minimize ?qm) = ?qm" using r 1 by (simp add: snd_minimize)
  show ?thesis using nv 1 s by simp
qed

text \<open>
  C10. For a valid problem instance, every implicant in the groups of round \<open>k\<close> has
  exactly \<open>k - 1\<close> dashes, and its minterm list is exactly the set of input terms its
  pattern covers. Whenever \<open>canMerge\<close> accepts two implicants of the round, they differ in a
  single position, which holds 0 in one and 1 in the other, never a dash, and the merged
  pattern is the first pattern with a dash at that position.
\<close>

theorem round_invariant:
  assumes "valid qm" "1 \<le> k"
  shows "\<forall>imp \<in> set (flat (roundGroups (allTerms qm) (numVars qm) k)).
           dashes (binary imp) = k - 1 \<and>
           set (iminterms imp) = {t \<in> set (allTerms qm). covers imp t (numVars qm)} \<and>
           (\<forall>b \<in> set (flat (roundGroups (allTerms qm) (numVars qm) k)).
              canMerge imp b \<longrightarrow>
              (\<exists>p < length (binary imp).
                 {binary imp ! p, binary b ! p} = {CHR ''0'', CHR ''1''} \<and>
                 (\<forall>q < length (binary imp). q \<noteq> p \<longrightarrow> binary imp ! q = binary b ! q) \<and>
                 binary (Implicant_merge imp b) = (binary imp)[p := CHR ''-'']))"
proof -
  obtain j where k: "k = Suc j" using assms(2) by (cases k) auto
  note r = valid_terms[OF assms(1)]
  note wf = wf_roundGroups[OF r, of j, folded k]
  show ?thesis
  proof (intro ballI conjI impI)
    fix imp assume i: "imp \<in> set (flat (roundGroups (allTerms qm) (numVars qm) k))"
    then have w: "wf_imp (numVars qm) (allTerms qm) j imp" using wf by blast
    show "dashes (binary imp) = k - 1" using w k by (simp add: wf_imp_def)
    show "set (iminterms imp) = {t \<in> set (allTerms qm). covers imp t (numVars qm)}"
      by (rule wf_imp_minterms[OF w r])
    fix b assume "b \<in> set (flat (roundGroups (allTerms qm) (numVars qm) k))" "canMerge imp b"
    then show "\<exists>p < length (binary imp).
                 {binary imp ! p, binary b ! p} = {CHR ''0'', CHR ''1''} \<and>
                 (\<forall>q < length (binary imp). q \<noteq> p \<longrightarrow> binary imp ! q = binary b ! q) \<and>
                 binary (Implicant_merge imp b) = (binary imp)[p := CHR ''-'']"
      using wf w by (intro wf_imp_merge_position) auto
  qed
qed

theorem round_invariant_witness:
  "valid (QuineMcCluskey_new 2 [0, 1, 2, 3] []) \<and> (1::nat) \<le> 2 \<and>
   Implicant_merge (Implicant_term 0 2) (Implicant_term 1 2)
     \<in> set (flat (roundGroups (allTerms (QuineMcCluskey_new 2 [0, 1, 2, 3] [])) 2 2)) \<and>
   Implicant_merge (Implicant_term 2 2) (Implicant_term 3 2)
     \<in> set (flat (roundGroups (allTerms (QuineMcCluskey_new 2 [0, 1, 2, 3] [])) 2 2)) \<and>
   canMerge (Implicant_merge (Implicant_term 0 2) (Implicant_term 1 2))
            (Implicant_merge (Implicant_term 2 2) (Implicant_term 3 2)) \<and>
   dashes (binary (Implicant_merge (Implicant_term 0 2) (Implicant_term 1 2))) = 2 - 1 \<and>
   set (iminterms (Implicant_merge (Implicant_term 0 2) (Implicant_term 1 2)))
     = {t \<in> set (allTerms (QuineMcCluskey_new 2 [0, 1, 2, 3] [])).
          covers (Implicant_merge (Implicant_term 0 2) (Implicant_term 1 2)) t 2} \<and>
   (\<exists>p < length (binary (Implicant_merge (Implicant_term 0 2) (Implicant_term 1 2))).
      {binary (Implicant_merge (Implicant_term 0 2) (Implicant_term 1 2)) ! p,
       binary (Implicant_merge (Implicant_term 2 2) (Implicant_term 3 2)) ! p}
        = {CHR ''0'', CHR ''1''})"
proof -
  let ?qm = "QuineMcCluskey_new 2 [0, 1, 2, 3] []"
  let ?R = "flat (roundGroups (allTerms ?qm) 2 2)"
  let ?a = "Implicant_merge (Implicant_term 0 2) (Implicant_term 1 2)"
  let ?b = "Implicant_merge (Implicant_term 2 2) (Implicant_term 3 2)"
  have v: "valid ?qm" by (simp add: valid_new)
  have k: "(1::nat) \<le> 2" by simp
  have nv: "numVars ?qm = 2" by (simp add: QuineMcCluskey_new_def initializeVarNames_def)
  have a: "?a \<in> set ?R" by code_simp
  have b: "?b \<in> set ?R" by code_simp
  have c: "canMerge ?a ?b" by code_simp
  note ri = round_invariant[OF v k, unfolded nv, rule_format, OF a]
  from ri have d: "dashes (binary ?a) = 2 - 1"
    and m: "set (iminterms ?a) = {t \<in> set (allTerms ?qm). covers ?a t 2}" by blast+
  from ri b c have "\<exists>p < length (binary ?a).
      {binary ?a ! p, binary ?b ! p} = {CHR ''0'', CHR ''1''} \<and>
      (\<forall>q < length (binary ?a). q \<noteq> p \<longrightarrow> binary ?a ! q = binary ?b ! q) \<and>
      binary (Implicant_merge ?a ?b) = (binary ?a)[p := CHR ''-'']"
    by blast
  then have "\<exists>p < length (binary ?a). {binary ?a ! p, binary ?b ! p} = {CHR ''0'', CHR ''1''}"
    by blast
  then show ?thesis using v k a b c d m by blast
qed

end
